theory Spec2Isabelle
  imports Main "HOL-Library.Word" "HOL-Library.Sublist" "HOL-Library.AList"
begin

section \<open>The program unit: a small model of the LLVM IR the pass works on\<close>

text \<open>
  The pass \<^verbatim>\<open>ReplaceVerifierFuns\<close> (src/transforms/ReplaceVerifierFuns.cpp) is a
  module pass over LLVM IR.  The IR library itself is not part of the repository, so the
  part of it the pass touches is modelled here: types, values, instructions, functions,
  globals and the module.  An instruction is identified by a number (its address in the
  C++ program); a function by its name (unique in a module); a global created by the pass
  by its position in the module's list of globals.
\<close>

datatype ty = VoidTy | IntTy nat | PtrTy ty | ArrayTy nat ty | OtherTy nat

datatype val =
    VInst nat              \<comment> \<open>the result of the instruction with this identity\<close>
  | VConstInt ty nat       \<comment> \<open>\<^verbatim>\<open>ConstantInt::get(type, n)\<close>\<close>
  | VFunc string           \<comment> \<open>a function of the module, used as a value\<close>
  | VGlobalCast nat ty     \<comment> \<open>\<^verbatim>\<open>ConstantExpr::getPointerCast(global, type)\<close>\<close>
  | VArg nat ty            \<comment> \<open>a formal argument of the enclosing function\<close>
  | VOther nat ty          \<comment> \<open>any other constant\<close>

datatype opcode = Call | Alloca ty | PtrCast | Mul | Load | Other nat

record inst =
  iid :: nat
  iop :: opcode
  operands :: "val list"   \<comment> \<open>of a call: the arguments, then the callee\<close>
  ity :: ty
  iname :: string
  dbg_line :: "nat option" \<comment> \<open>the \<^verbatim>\<open>DebugLoc\<close>; \<open>None\<close> when there is none\<close>
  metadata :: "(nat \<times> nat) list"
  attrs :: "nat list"

record func =
  fname :: string
  ret_ty :: ty
  param_tys :: "ty list"
  body :: "inst list"      \<comment> \<open>the instructions in program order; empty for a declaration\<close>

record global_var =
  gty :: ty
  gconstant :: bool
  ginit :: string

record module =
  funcs :: "func list"
  globals :: "global_var list"
  pointer_bits :: nat             \<comment> \<open>\<^verbatim>\<open>getDataLayout().getPointerSizeInBits()\<close>\<close>
  type_alloc_size :: "ty \<Rightarrow> nat"   \<comment> \<open>\<^verbatim>\<open>getDataLayout().getTypeAllocSize(type)\<close>\<close>

datatype error =
    Abort string           \<comment> \<open>\<^verbatim>\<open>abort()\<close> after the diagnostic given\<close>
  | AssertionFailed string \<comment> \<open>an \<^verbatim>\<open>assert\<close> of the pass fails (builds without NDEBUG)\<close>
  | Crash string           \<comment> \<open>undefined behaviour: a dangling or null pointer, a violated
                               precondition of the IR library\<close>

definition i8ptr :: ty where
  "i8ptr = PtrTy (IntTy 8)"

definition all_insts :: "module \<Rightarrow> inst list" where
  "all_insts M = concat (map body (funcs M))"

definition get_inst :: "module \<Rightarrow> nat \<Rightarrow> inst option" where
  "get_inst M j = find (\<lambda>i. iid i = j) (all_insts M)"

text \<open>\<^verbatim>\<open>CI->getParent()->getParent()\<close>: the function whose body holds the instruction.\<close>

definition get_parent :: "module \<Rightarrow> nat \<Rightarrow> func option" where
  "get_parent M j = find (\<lambda>f. j \<in> set (map iid (body f))) (funcs M)"

text \<open>
  \<^verbatim>\<open>new\<close> returns an address no live object has.  The model takes the successor of the
  largest identity in the module; the instructions the pass erases are never the largest
  ones once a rewrite has happened, so an erased identity is never given out again and a
  use of an erased instruction stays visible as such.
\<close>

definition fresh_id :: "module \<Rightarrow> nat" where
  "fresh_id M = Suc (foldr max (map iid (all_insts M)) 0)"

definition map_bodies :: "(inst list \<Rightarrow> inst list) \<Rightarrow> module \<Rightarrow> module" where
  "map_bodies g M = M\<lparr>funcs := map (\<lambda>f. f\<lparr>body := g (body f)\<rparr>) (funcs M)\<rparr>"

fun insert_before_l :: "nat \<Rightarrow> inst \<Rightarrow> inst list \<Rightarrow> inst list" where
  "insert_before_l t new [] = []"
| "insert_before_l t new (x # xs) =
     (if iid x = t then new # x # xs else x # insert_before_l t new xs)"

fun insert_after_l :: "nat \<Rightarrow> inst \<Rightarrow> inst list \<Rightarrow> inst list" where
  "insert_after_l t new [] = []"
| "insert_after_l t new (x # xs) =
     (if iid x = t then x # new # xs else x # insert_after_l t new xs)"

definition insertBefore :: "inst \<Rightarrow> nat \<Rightarrow> module \<Rightarrow> module" where
  "insertBefore new t M = map_bodies (insert_before_l t new) M"

definition insertAfter :: "inst \<Rightarrow> nat \<Rightarrow> module \<Rightarrow> module" where
  "insertAfter new t M = map_bodies (insert_after_l t new) M"

definition subst_val :: "nat \<Rightarrow> val \<Rightarrow> val \<Rightarrow> val" where
  "subst_val old new v = (if v = VInst old then new else v)"

definition subst_inst :: "nat \<Rightarrow> val \<Rightarrow> inst \<Rightarrow> inst" where
  "subst_inst old new i = i\<lparr>operands := map (subst_val old new) (operands i)\<rparr>"

definition replaceAllUsesWith :: "nat \<Rightarrow> val \<Rightarrow> module \<Rightarrow> module" where
  "replaceAllUsesWith old new M = map_bodies (map (subst_inst old new)) M"

definition eraseFromParent :: "nat \<Rightarrow> module \<Rightarrow> module" where
  "eraseFromParent t M = map_bodies (filter (\<lambda>i. iid i \<noteq> t)) M"

text \<open>
  \<^verbatim>\<open>new GlobalVariable(M, type, true, PrivateLinkage, ConstantDataArray::getString(name))\<close>:
  a constant array of the characters and the terminating zero, appended to the module.
\<close>

definition add_name_global :: "module \<Rightarrow> string \<Rightarrow> module \<times> nat" where
  "add_name_global M name =
     (M\<lparr>globals := globals M @
          [\<lparr>gty = ArrayTy (Suc (length name)) (IntTy 8), gconstant = True, ginit = name\<rparr>]\<rparr>,
      length (globals M))"

text \<open>\<^verbatim>\<open>getCalledFunction()\<close>: the callee operand when it is a function, else null.\<close>

definition getCalledFunction :: "inst \<Rightarrow> string option" where
  "getCalledFunction CI =
     (case operands CI of [] \<Rightarrow> None
      | _ \<Rightarrow> (case last (operands CI) of VFunc f \<Rightarrow> Some f | _ \<Rightarrow> None))"

definition val_ty :: "module \<Rightarrow> val \<Rightarrow> ty" where
  "val_ty M v =
     (case v of
        VInst j \<Rightarrow> (case get_inst M j of Some i \<Rightarrow> ity i | None \<Rightarrow> VoidTy)
      | VConstInt t _ \<Rightarrow> t
      | VFunc _ \<Rightarrow> PtrTy (OtherTy 0)
      | VGlobalCast _ t \<Rightarrow> t
      | VArg _ t \<Rightarrow> t
      | VOther _ t \<Rightarrow> t)"

text \<open>
  The uses of a function: every operand of an instruction that is the function, callee or
  argument.  LLVM links a new use at the head of the use list of the value, so
  \<^verbatim>\<open>use_begin()\<close> \<open>\<dots>\<close> \<^verbatim>\<open>use_end()\<close> meets the newest use first; for a module whose
  instructions were created in program order that is the reverse of program order, which
  is the order of the model.  Users that are not instructions are constants, which the
  \<^verbatim>\<open>dyn_cast<CallInst>\<close> of the pass skips, so they are left out.
\<close>

definition uses_of :: "module \<Rightarrow> string \<Rightarrow> inst list" where
  "uses_of M name =
     rev (concat (map (\<lambda>i. map (\<lambda>_. i) (filter (\<lambda>v. v = VFunc name) (operands i)))
                   (all_insts M)))"


section \<open>The pass\<close>

text \<open>
  The members of \<^verbatim>\<open>class ReplaceVerifierFuns\<close>, and the function-local
  \<^verbatim>\<open>static unsigned call_identifier\<close> of \<^verbatim>\<open>handleAlloc\<close>
  (\<open>alloc_call_identifier\<close>).  The members belong to the pass object; the static belongs
  to the process: it is initialised once, when \<^verbatim>\<open>handleAlloc\<close> is first entered, and keeps
  its value from one pass object to the next.  \<^verbatim>\<open>std::set\<close> and \<^verbatim>\<open>std::map\<close> are a duplicate-free list
  and an association list with distinct keys: the pass only tests them for emptiness, size
  and membership.  Line numbers are \<^verbatim>\<open>unsigned\<close>; they are natural numbers here, which
  agrees with the code for sources of fewer than \<open>2 ^ 32\<close> lines.
\<close>

record pass_state =
  calls_to_replace :: "(nat \<times> nat) list"    \<comment> \<open>(line number, call)\<close>
  allocs_to_handle :: "(nat \<times> nat) list"
  lines_nums :: "nat list"
  lines :: "(nat \<times> string) list"
  vms :: "string option"                     \<comment> \<open>\<^verbatim>\<open>_vms\<close>\<close>
  size_t_Ty :: "ty option"                   \<comment> \<open>\<^verbatim>\<open>_size_t_Ty\<close>\<close>
  call_identifier :: "32 word"
  alloc_call_identifier :: "32 word"

text \<open>
  What the pass reads from outside the module: the option
  \<^verbatim>\<open>-replace-verifier-funs-source\<close>, the files that can be opened (with their contents),
  whether the pass was compiled with \<^verbatim>\<open>NDEBUG\<close> (then \<^verbatim>\<open>assert\<close> does nothing), and
  the value the static counter of \<^verbatim>\<open>handleAlloc\<close> has when the run starts: 0 in a process
  in which \<^verbatim>\<open>handleAlloc\<close> has not run yet, and otherwise the value the earlier runs of the
  process left.
\<close>

record env =
  source_name :: string
  file_system :: "string \<Rightarrow> string option"
  ndebug :: bool
  static_identifier :: "32 word"

text \<open>
  A newly constructed pass object (the member initialisers of the class), in a process
  whose static counter has the value \<open>s\<close>.
\<close>

definition init_state :: "32 word \<Rightarrow> pass_state" where
  "init_state s =
     \<lparr>calls_to_replace = [], allocs_to_handle = [], lines_nums = [], lines = [],
      vms = None, size_t_Ty = None, call_identifier = 0, alloc_call_identifier = s\<rparr>"

definition handleCall :: "pass_state \<Rightarrow> func \<Rightarrow> inst \<Rightarrow> bool \<Rightarrow> pass_state" where
  "handleCall st F CI ismalloc =
     (case dbg_line CI of
        Some l \<Rightarrow>
          (if ismalloc then st\<lparr>allocs_to_handle := allocs_to_handle st @ [(l, iid CI)]\<rparr>
           else st\<lparr>calls_to_replace := calls_to_replace st @ [(l, iid CI)]\<rparr>)
          \<lparr>lines_nums := List.insert l (lines_nums st)\<rparr>
      | None \<Rightarrow>
          (if ismalloc then st\<lparr>allocs_to_handle := allocs_to_handle st @ [(0, iid CI)]\<rparr>
           else st\<lparr>calls_to_replace := calls_to_replace st @ [(0, iid CI)]\<rparr>))"

definition runOnFunction :: "module \<Rightarrow> pass_state \<Rightarrow> func \<Rightarrow> pass_state" where
  "runOnFunction M st F =
     (if body F \<noteq> [] then st
      else if \<not> prefix ''__VERIFIER_nondet_'' (fname F) \<and>
              \<not> prefix ''malloc'' (fname F) \<and>
              \<not> prefix ''calloc'' (fname F) then st
      else fold (\<lambda>use s. if iop use = Call
                          then handleCall s F use (\<not> prefix ''__VERIFIER'' (fname F))
                          else s)
             (uses_of M (fname F)) st)"

subsection \<open>Reading the source file\<close>

text \<open>\<^verbatim>\<open>getline\<close>: the text up to the next newline; a last line needs no newline.\<close>

fun getlines :: "string \<Rightarrow> string \<Rightarrow> string list" where
  "getlines [] acc = (if acc = [] then [] else [rev acc])"
| "getlines (c # cs) acc =
     (if c = CHR 0x0A then rev acc # getlines cs [] else getlines cs (c # acc))"

fun read_lines :: "string list \<Rightarrow> nat \<Rightarrow> nat list \<Rightarrow> (nat \<times> string) list \<Rightarrow> (nat \<times> string) list" where
  "read_lines [] n nums ls = ls"
| "read_lines (line # rest) n nums ls =
     read_lines rest (Suc n) nums (if n \<in> set nums then AList.update n line ls else ls)"

definition mapLines :: "env \<Rightarrow> pass_state \<Rightarrow> error + pass_state" where
  "mapLines e st =
     (if lines_nums st = [] then
        (if \<not> ndebug e \<and> calls_to_replace st \<noteq> []
         then Inl (AssertionFailed ''calls_to_replace.empty()'')
         else Inr st)
      else
        (case file_system e (source_name e) of
           Some content \<Rightarrow>
             (let st' = st\<lparr>lines := read_lines (getlines content []) 1 (lines_nums st) (lines st)\<rparr>
              in if \<not> ndebug e \<and> length (lines st') \<noteq> length (lines_nums st')
                 then Inl (AssertionFailed ''lines.size() == lines_nums.size()'')
                 else Inr st')
         | None \<Rightarrow> Inl (Abort (''Couldn't open file: '' @ source_name e @ [CHR 0x0A]))))"

subsection \<open>The name of the assigned variable\<close>

text \<open>
  \<^verbatim>\<open>iss >> sub\<close> skips white space and reads up to the next white space; it fails, and
  leaves \<^verbatim>\<open>sub\<close> as it is, when only white space is left.
\<close>

definition is_space :: "char \<Rightarrow> bool" where
  "is_space c \<longleftrightarrow> c \<in> set [CHR 0x20, CHR 0x09, CHR 0x0A, CHR 0x0B, CHR 0x0C, CHR 0x0D]"

definition read_token :: "string \<Rightarrow> (string \<times> string) option" where
  "read_token s =
     (let s' = dropWhile is_space s
      in if s' = [] then None
         else Some (takeWhile (\<lambda>c. \<not> is_space c) s', dropWhile (\<lambda>c. \<not> is_space c) s'))"

lemma read_token_shorter: "read_token s = Some (t, r) \<Longrightarrow> length r < length s"
proof -
  assume a: "read_token s = Some (t, r)"
  let ?s = "dropWhile is_space s"
  from a have ne: "?s \<noteq> []"
    by (cases "?s = []") (simp_all add: read_token_def Let_def)
  from a ne have r: "r = dropWhile (\<lambda>c. \<not> is_space c) ?s"
    by (auto simp: read_token_def Let_def split: if_splits)
  from ne have "\<not> is_space (hd ?s)" by (rule hd_dropWhile)
  with ne have "length r < length ?s"
    unfolding r by (cases ?s) (auto intro: le_imp_less_Suc length_dropWhile_le)
  also have "\<dots> \<le> length s" by (rule length_dropWhile_le)
  finally show ?thesis .
qed

text \<open>
  The loop \<^verbatim>\<open>while (iss >> sub) { if (sub == "=") break; var = std::move(sub); }\<close>,
  giving the stream, \<^verbatim>\<open>sub\<close> and \<^verbatim>\<open>var\<close> at its exit.  A moved-from string is empty
  (libstdc++ and libc++).
\<close>

function scan :: "string \<Rightarrow> string \<Rightarrow> string \<Rightarrow> string \<times> string \<times> string" where
  "scan iss sub var =
     (case read_token iss of
        None \<Rightarrow> (iss, sub, var)
      | Some (tok, rest) \<Rightarrow> if tok = ''='' then (rest, tok, var) else scan rest [] tok)"
  by pat_completeness auto
termination
  by (relation "measure (\<lambda>(iss, sub, var). length iss)") (auto dest: read_token_shorter)

declare scan.simps [simp del]

definition getName :: "string \<Rightarrow> string" where
  "getName line =
     (case scan line [] [] of
        (iss, sub, var) \<Rightarrow>
          if var \<noteq> [] \<and> sub = ''='' then
            (let sub' = (case read_token iss of None \<Rightarrow> sub | Some (tok, _) \<Rightarrow> tok)
             in if take 18 sub' = ''__VERIFIER_nondet_'' then var else ''--'')
          else ''--'')"

text \<open>\<^verbatim>\<open>std::to_string\<close> of an unsigned number: its decimal digits.\<close>

function to_string :: "nat \<Rightarrow> string" where
  "to_string n =
     (if n < 10 then [''0123456789'' ! n]
      else to_string (n div 10) @ [''0123456789'' ! (n mod 10)])"
  by pat_completeness auto
termination
  by (relation "measure id") auto

declare to_string.simps [simp del]

subsection \<open>The cached type and declaration\<close>

definition get_size_t :: "module \<Rightarrow> pass_state \<Rightarrow> pass_state \<times> ty" where
  "get_size_t M st =
     (case size_t_Ty st of
        Some t \<Rightarrow> (st, t)
      | None \<Rightarrow>
          (let t = (if pointer_bits M > 32 then IntTy 64 else IntTy 32)
           in (st\<lparr>size_t_Ty := Some t\<rparr>, t)))"

text \<open>
  \<^verbatim>\<open>M.getOrInsertFunction(name, type)\<close> gives the function of that name when it has that
  type, adds a declaration when the module has none, and gives a cast of the function, not
  a function, when the type differs: then \<^verbatim>\<open>cast<Function>\<close> fails.
\<close>

definition get_verifier_make_nondet ::
    "module \<Rightarrow> pass_state \<Rightarrow> (error \<times> module) + (module \<times> pass_state \<times> string)" where
  "get_verifier_make_nondet M st =
     (case vms st of
        Some f \<Rightarrow> Inr (M, st, f)
      | None \<Rightarrow>
          (case get_size_t M st of
             (st1, szt) \<Rightarrow>
               (case find (\<lambda>f. fname f = ''klee_make_nondet'') (funcs M) of
                  None \<Rightarrow>
                    Inr (M\<lparr>funcs := funcs M @
                            [\<lparr>fname = ''klee_make_nondet'', ret_ty = VoidTy,
                              param_tys = [i8ptr, szt, i8ptr, IntTy 32], body = []\<rparr>]\<rparr>,
                         st1\<lparr>vms := Some ''klee_make_nondet''\<rparr>, ''klee_make_nondet'')
                | Some f \<Rightarrow>
                    if ret_ty f = VoidTy \<and> param_tys f = [i8ptr, szt, i8ptr, IntTy 32]
                    then Inr (M, st1\<lparr>vms := Some ''klee_make_nondet''\<rparr>, ''klee_make_nondet'')
                    else Inl (Crash ''cast<Function>'', M))))"


subsection \<open>The two rewrites\<close>

text \<open>
  \<^verbatim>\<open>replaceCall\<close>.  A call that is no longer in the module was erased by an earlier rewrite:
  the C++ code then reads freed memory.  \<^verbatim>\<open>new AllocaInst\<close> refuses the type void.  The
  metadata copied to the new call include the debug location.
\<close>

definition replaceCall ::
    "module \<Rightarrow> pass_state \<Rightarrow> nat \<Rightarrow> nat \<Rightarrow> string \<Rightarrow> (error \<times> module) + (module \<times> pass_state)" where
  "replaceCall M st ci line var =
     (case (get_inst M ci, get_parent M ci) of
        (Some CI, Some F) \<Rightarrow>
          (let parent_name = fname F;
               name = parent_name @ '':'' @ var @ '':'' @ to_string line
           in case add_name_global M name of
                (M1, nameG) \<Rightarrow>
                  if ity CI = VoidTy then Inl (Crash ''AllocaInst of void'', M1)
                  else
                    (let n = fresh_id M1;
                         AI = \<lparr>iid = n, iop = Alloca (ity CI), operands = [],
                               ity = PtrTy (ity CI), iname = [], dbg_line = None,
                               metadata = [], attrs = []\<rparr>;
                         CastI = \<lparr>iid = n + 1, iop = PtrCast, operands = [VInst n],
                                  ity = i8ptr, iname = [], dbg_line = None,
                                  metadata = [], attrs = []\<rparr>
                     in case get_size_t M1 st of
                          (st1, szt) \<Rightarrow>
                            (let st2 = st1\<lparr>call_identifier := call_identifier st1 + 1\<rparr>;
                                 args = [VInst (n + 1),
                                         VConstInt szt (type_alloc_size M1 (ity CI)),
                                         VGlobalCast nameG i8ptr,
                                         VConstInt (IntTy 32) (unat (call_identifier st2))]
                             in case get_verifier_make_nondet M1 st2 of
                                  Inl err \<Rightarrow> Inl err
                                | Inr (M2, st3, f) \<Rightarrow>
                                    (let new_CI = \<lparr>iid = n + 2, iop = Call,
                                                    operands = args @ [VFunc f], ity = VoidTy,
                                                    iname = [], dbg_line = dbg_line CI,
                                                    metadata = metadata CI, attrs = attrs CI\<rparr>;
                                         LI = \<lparr>iid = n + 3, iop = Load, operands = [VInst n],
                                               ity = ity CI, iname = name, dbg_line = None,
                                               metadata = [], attrs = []\<rparr>;
                                         M3 = insertBefore new_CI ci M2;
                                         M4 = insertBefore CastI (n + 2) M3;
                                         M5 = insertBefore AI (n + 1) M4;
                                         M6 = insertAfter LI (n + 2) M5;
                                         M7 = replaceAllUsesWith ci (VInst (n + 3)) M6;
                                         M8 = eraseFromParent ci M7
                                     in Inr (M8, st3)))))
      | _ \<Rightarrow> Inl (Crash ''call erased before'', M))"

text \<open>
  \<^verbatim>\<open>handleAlloc\<close>.  \<^verbatim>\<open>CastInst::CreatePointerCast\<close> wants a pointer;
  \<^verbatim>\<open>getCalledFunction()\<close> is null for an indirect call; \<^verbatim>\<open>getOperand(1)\<close> must exist;
  \<^verbatim>\<open>BinaryOperator::Create\<close> wants two operands of one type.
\<close>

definition handleAlloc ::
    "module \<Rightarrow> pass_state \<Rightarrow> nat \<Rightarrow> nat \<Rightarrow> string \<Rightarrow> (error \<times> module) + (module \<times> pass_state)" where
  "handleAlloc M st ci line var =
     (case (get_inst M ci, get_parent M ci) of
        (Some CI, Some F) \<Rightarrow>
          (let parent_name = fname F;
               name = parent_name @ '':'' @ var @ '':'' @ to_string line
           in case add_name_global M name of
                (M1, nameG) \<Rightarrow>
                  (case ity CI of
                     PtrTy _ \<Rightarrow>
                       (let n = fresh_id M1;
                            CastI = \<lparr>iid = n, iop = PtrCast, operands = [VInst ci],
                                     ity = i8ptr, iname = [], dbg_line = None,
                                     metadata = [], attrs = []\<rparr>;
                            M2 = insertAfter CastI ci M1
                        in case getCalledFunction CI of
                             None \<Rightarrow> Inl (Crash ''getCalledFunction() is null'', M2)
                           | Some callee \<Rightarrow>
                               (if callee = ''calloc'' \<and>
                                   (length (operands CI) < 2 \<or>
                                    val_ty M2 (operands CI ! 0) \<noteq> val_ty M2 (operands CI ! 1))
                                then Inl (Crash ''BinaryOperator::Create'', M2)
                                else
                                  (let Mul = \<lparr>iid = n + 1, iop = Mul,
                                              operands = [operands CI ! 0, operands CI ! 1],
                                              ity = val_ty M2 (operands CI ! 0), iname = [],
                                              dbg_line = None, metadata = [], attrs = []\<rparr>;
                                       M3 = (if callee = ''calloc''
                                             then insertBefore Mul n M2 else M2);
                                       nbytes = (if callee = ''calloc''
                                                 then VInst (n + 1) else operands CI ! 0);
                                       st1 = st\<lparr>alloc_call_identifier :=
                                                  alloc_call_identifier st + 1\<rparr>;
                                       args = [VInst n, nbytes, VGlobalCast nameG i8ptr,
                                               VConstInt (IntTy 32)
                                                 (unat (alloc_call_identifier st1))]
                                   in case get_verifier_make_nondet M3 st1 of
                                        Inl err \<Rightarrow> Inl err
                                      | Inr (M4, st2, f) \<Rightarrow>
                                          (let new_CI = \<lparr>iid = n + 2, iop = Call,
                                                          operands = args @ [VFunc f],
                                                          ity = VoidTy, iname = [],
                                                          dbg_line = None, metadata = [],
                                                          attrs = []\<rparr>
                                           in Inr (insertAfter new_CI n M4, st2)))))
                   | _ \<Rightarrow> Inl (Crash ''CreatePointerCast of a non-pointer'', M1)))
      | _ \<Rightarrow> Inl (Crash ''call erased before'', M))"

subsection \<open>The two loops and the pass\<close>

fun replaceCalls_loop ::
    "module \<Rightarrow> pass_state \<Rightarrow> (nat \<times> nat) list \<Rightarrow> (error \<times> module) + (module \<times> pass_state)" where
  "replaceCalls_loop M st [] = Inr (M, st)"
| "replaceCalls_loop M st ((line_num, ci) # rest) =
     (case replaceCall M st ci line_num
             (case map_of (lines st) line_num of None \<Rightarrow> [] | Some l \<Rightarrow> getName l) of
        Inl err \<Rightarrow> Inl err
      | Inr (M', st') \<Rightarrow> replaceCalls_loop M' st' rest)"

definition replaceCalls :: "module \<Rightarrow> pass_state \<Rightarrow> (error \<times> module) + (module \<times> pass_state)" where
  "replaceCalls M st = replaceCalls_loop M st (calls_to_replace st)"

fun handleAllocs_loop ::
    "module \<Rightarrow> pass_state \<Rightarrow> (nat \<times> nat) list \<Rightarrow> (error \<times> module) + (module \<times> pass_state)" where
  "handleAllocs_loop M st [] = Inr (M, st)"
| "handleAllocs_loop M st ((line_num, ci) # rest) =
     (case handleAlloc M st ci line_num ''dynalloc'' of
        Inl err \<Rightarrow> Inl err
      | Inr (M', st') \<Rightarrow> handleAllocs_loop M' st' rest)"

definition handleAllocs :: "module \<Rightarrow> pass_state \<Rightarrow> (error \<times> module) + (module \<times> pass_state)" where
  "handleAllocs M st = handleAllocs_loop M st (allocs_to_handle st)"

text \<open>
  \<^verbatim>\<open>runOnModule\<close>: collect, read the source lines, rewrite.  An error comes with the
  module as it is when the process stops.
\<close>

definition collect :: "env \<Rightarrow> module \<Rightarrow> pass_state" where
  "collect e M = fold (\<lambda>F s. runOnFunction M s F) (funcs M) (init_state (static_identifier e))"

definition runOnModule :: "env \<Rightarrow> module \<Rightarrow> (error \<times> module) + (module \<times> pass_state \<times> bool)" where
  "runOnModule e M =
     (case mapLines e (collect e M) of
        Inl err \<Rightarrow> Inl (err, M)
      | Inr st1 \<Rightarrow>
          (case replaceCalls M st1 of
             Inl err \<Rightarrow> Inl err
           | Inr (M1, st2) \<Rightarrow>
               (case handleAllocs M1 st2 of
                  Inl err \<Rightarrow> Inl err
                | Inr (M2, st3) \<Rightarrow>
                    Inr (M2, st3, calls_to_replace st3 \<noteq> [] \<or> allocs_to_handle st3 \<noteq> []))))"


section \<open>What the rewritten module says\<close>

text \<open>
  A registration call is a call of \<^verbatim>\<open>klee_make_nondet\<close> with its four arguments; read
  off it: the memory registered, the number of bytes, the name (the text of the global the
  third argument points to) and the identifier.
\<close>

definition reg_info :: "module \<Rightarrow> inst \<Rightarrow> (val \<times> val \<times> string \<times> nat) option" where
  "reg_info M i =
     (if iop i = Call \<and> length (operands i) = 5 \<and> operands i ! 4 = VFunc ''klee_make_nondet''
      then (case (operands i ! 2, operands i ! 3) of
              (VGlobalCast g _, VConstInt _ k) \<Rightarrow>
                if g < length (globals M)
                then Some (operands i ! 0, operands i ! 1, ginit (globals M ! g), k)
                else None
            | _ \<Rightarrow> None)
      else None)"

definition registrations :: "module \<Rightarrow> (val \<times> val \<times> string \<times> nat) list" where
  "registrations M = List.map_filter (reg_info M) (all_insts M)"

definition result_module :: "(error \<times> module) + (module \<times> pass_state \<times> bool) \<Rightarrow> module option" where
  "result_module r = (case r of Inl _ \<Rightarrow> None | Inr (M, _) \<Rightarrow> Some M)"

section \<open>The variable-name extractor as the specification words it\<close>

text \<open>
  The line is cut into its white-space separated tokens; the token before the first
  \<open>=\<close> token is tracked; it is the answer when there is an \<open>=\<close> token, the tracked token
  is not empty and the token after the \<open>=\<close> starts with \<^verbatim>\<open>__VERIFIER_nondet_\<close>; the answer
  is \<^verbatim>\<open>--\<close> otherwise.
\<close>

fun words_acc :: "string \<Rightarrow> string \<Rightarrow> string list" where
  "words_acc [] acc = (if acc = [] then [] else [rev acc])"
| "words_acc (c # cs) acc =
     (if is_space c then (if acc = [] then [] else [rev acc]) @ words_acc cs []
      else words_acc cs (c # acc))"

definition tokens :: "string \<Rightarrow> string list" where
  "tokens s = words_acc s []"

definition getName_spec :: "string \<Rightarrow> string" where
  "getName_spec line =
     (let toks = tokens line;
          before = takeWhile (\<lambda>t. t \<noteq> ''='') toks;
          from_eq = dropWhile (\<lambda>t. t \<noteq> ''='') toks
      in case from_eq of
           [] \<Rightarrow> ''--''
         | eq # following \<Rightarrow>
             (let tracked = (if before = [] then [] else last before)
              in if tracked \<noteq> [] \<and> following \<noteq> [] \<and>
                    prefix ''__VERIFIER_nondet_'' (hd following)
                 then tracked else ''--''))"

lemma words_acc_skip: "words_acc (dropWhile is_space s) [] = words_acc s []"
  by (induction s) auto

lemma words_acc_word:
  "acc \<noteq> [] \<Longrightarrow>
   words_acc s acc =
     (rev acc @ takeWhile (\<lambda>c. \<not> is_space c) s) # words_acc (dropWhile (\<lambda>c. \<not> is_space c) s) []"
  by (induction s arbitrary: acc) auto

lemma tokens_read_token:
  "tokens s = (case read_token s of None \<Rightarrow> [] | Some (t, r) \<Rightarrow> t # tokens r)"
proof (cases "dropWhile is_space s")
  case Nil
  have "words_acc s [] = words_acc (dropWhile is_space s) []"
    by (simp only: words_acc_skip)
  also have "\<dots> = []" by (simp only: Nil) simp
  finally have "tokens s = []" by (simp add: tokens_def)
  moreover from Nil have "read_token s = None" by (simp only: read_token_def Let_def) simp
  ultimately show ?thesis by simp
next
  case (Cons c cs)
  then have c: "\<not> is_space c"
    using hd_dropWhile [of is_space s] by auto
  have "words_acc s [] = words_acc (dropWhile is_space s) []"
    by (simp only: words_acc_skip)
  also have "\<dots> = words_acc (c # cs) []" by (simp only: Cons)
  also have "\<dots> = words_acc cs [c]" using c by simp
  also have "\<dots> = (c # takeWhile (\<lambda>c. \<not> is_space c) cs) # words_acc (dropWhile (\<lambda>c. \<not> is_space c) cs) []"
    by (simp add: words_acc_word)
  finally have "tokens s = (c # takeWhile (\<lambda>c. \<not> is_space c) cs) # tokens (dropWhile (\<lambda>c. \<not> is_space c) cs)"
    by (simp add: tokens_def)
  moreover from Cons c have "read_token s = Some (c # takeWhile (\<lambda>c. \<not> is_space c) cs, dropWhile (\<lambda>c. \<not> is_space c) cs)"
    by (simp only: read_token_def Let_def) simp
  ultimately show ?thesis by simp
qed

lemma read_token_nonempty: "read_token s = Some (t, r) \<Longrightarrow> t \<noteq> []"
proof (cases "dropWhile is_space s")
  case Nil
  assume "read_token s = Some (t, r)"
  with Nil show ?thesis by (simp only: read_token_def Let_def) simp
next
  case (Cons c cs)
  assume a: "read_token s = Some (t, r)"
  from Cons have "\<not> is_space c"
    using hd_dropWhile [of is_space s] by auto
  with a Cons show ?thesis by (simp only: read_token_def Let_def) auto
qed

lemma take_prefix_iff: "take (length p) t = p \<longleftrightarrow> prefix p t"
  by (metis append_eq_conv_conj prefix_def)

lemma scan_tokens:
  "scan s sub var = (iss, sub', var') \<Longrightarrow>
     var' = (if takeWhile (\<lambda>t. t \<noteq> ''='') (tokens s) = [] then var
             else last (takeWhile (\<lambda>t. t \<noteq> ''='') (tokens s))) \<and>
     (case dropWhile (\<lambda>t. t \<noteq> ''='') (tokens s) of
        [] \<Rightarrow> sub' = (if tokens s = [] then sub else []) \<and> tokens iss = []
      | eq # following \<Rightarrow> sub' = ''='' \<and> tokens iss = following)"
proof (induction s sub var arbitrary: iss sub' var' rule: scan.induct)
  case (1 s sub var)
  show ?case
  proof (cases "read_token s")
    case None
    then have tk: "tokens s = []" by (simp add: tokens_read_token [of s])
    from None "1.prems" have "iss = s" "sub' = sub" "var' = var"
      by (simp_all add: scan.simps [of s])
    with tk show ?thesis by simp
  next
    case (Some p)
    obtain tok rest where p: "p = (tok, rest)" by (cases p)
    show ?thesis
    proof (cases "tok = ''=''")
      case True
      with Some p have tk: "tokens s = ''='' # tokens rest"
        by (simp add: tokens_read_token [of s])
      from True Some p "1.prems" have "iss = rest" "sub' = ''=''" "var' = var"
        by (simp_all add: scan.simps [of s])
      with tk show ?thesis by simp
    next
      case False
      with "1.prems" Some p have sc: "scan rest [] tok = (iss, sub', var')"
        by (simp add: scan.simps [of s])
      from Some p have tk: "tokens s = tok # tokens rest"
        by (simp add: tokens_read_token [of s])
      define B where "B = takeWhile (\<lambda>t. t \<noteq> ''='') (tokens rest)"
      define D where "D = dropWhile (\<lambda>t. t \<noteq> ''='') (tokens rest)"
      have ih: "var' = (if B = [] then tok else last B) \<and>
                (case D of [] \<Rightarrow> sub' = [] \<and> tokens iss = []
                 | eq # following \<Rightarrow> sub' = ''='' \<and> tokens iss = following)"
        using "1.IH" [OF Some p [symmetric] False sc]
        unfolding B_def [symmetric] D_def [symmetric] by (cases D) simp_all
      have tw: "takeWhile (\<lambda>t. t \<noteq> ''='') (tokens s) = tok # B"
        and dw: "dropWhile (\<lambda>t. t \<noteq> ''='') (tokens s) = D"
        using False unfolding tk B_def D_def by simp_all
      have ne: "tokens s \<noteq> []" by (simp add: tk)
      from ih ne show ?thesis
        by (simp only: tw dw) (cases D; simp)
    qed
  qed
qed

lemma getName_refines: "getName line = getName_spec line"
proof -
  obtain iss sub' var' where sc: "scan line [] [] = (iss, sub', var')"
    by (cases "scan line [] []") auto
  define B where "B = takeWhile (\<lambda>t. t \<noteq> ''='') (tokens line)"
  define D where "D = dropWhile (\<lambda>t. t \<noteq> ''='') (tokens line)"
  have v: "var' = (if B = [] then [] else last B)"
    and d: "case D of [] \<Rightarrow> sub' = [] \<and> tokens iss = []
            | eq # following \<Rightarrow> sub' = ''='' \<and> tokens iss = following"
    using scan_tokens [OF sc] unfolding B_def [symmetric] D_def [symmetric]
    by (simp_all split: list.splits)
  have len: "length ''__VERIFIER_nondet_'' = 18" by simp
  show ?thesis
  proof (cases D)
    case Nil
    with d have "sub' = []" by simp
    with Nil sc show ?thesis
      by (simp add: getName_def getName_spec_def Let_def D_def [symmetric])
  next
    case (Cons eq following)
    with d have s: "sub' = ''=''" and f: "tokens iss = following" by simp_all
    show ?thesis
    proof (cases "read_token iss")
      case None
      with f have "following = []" by (simp add: tokens_read_token [of iss])
      with None Cons sc s v show ?thesis
        by (simp add: getName_def getName_spec_def Let_def D_def [symmetric] B_def [symmetric])
    next
      case (Some p)
      obtain tok r where p: "p = (tok, r)" by (cases p)
      with Some f have fo: "following = tok # tokens r"
        by (simp add: tokens_read_token [of iss])
      have "take 18 tok = ''__VERIFIER_nondet_'' \<longleftrightarrow> prefix ''__VERIFIER_nondet_'' tok"
        using take_prefix_iff [of "''__VERIFIER_nondet_''" tok] by (simp only: len)
      with Some p fo Cons sc s v show ?thesis
        by (simp add: getName_def getName_spec_def Let_def D_def [symmetric] B_def [symmetric])
    qed
  qed
qed

section \<open>Reasoning about the rewrites\<close>

definition inst_ids :: "module \<Rightarrow> nat set" where
  "inst_ids M = iid ` set (all_insts M)"

definition wf_module :: "module \<Rightarrow> bool" where
  "wf_module M \<longleftrightarrow> distinct (map iid (all_insts M))"

lemma foldr_max_ge: "x \<in> set xs \<Longrightarrow> x \<le> foldr max xs (b::nat)"
  by (induction xs) auto

lemma fresh_id_gt: "i \<in> set (all_insts M) \<Longrightarrow> iid i < fresh_id M"
  unfolding fresh_id_def using foldr_max_ge [of "iid i" "map iid (all_insts M)" 0] by auto

lemma foldr_max_le: "(\<And>x. x \<in> set xs \<Longrightarrow> x \<le> m) \<Longrightarrow> b \<le> m \<Longrightarrow> foldr max xs (b::nat) \<le> m"
  by (induction xs) auto

lemma fresh_id_mono:
  assumes "\<And>i. i \<in> set (all_insts M) \<Longrightarrow> \<exists>i' \<in> set (all_insts M'). iid i \<le> iid i'"
  shows "fresh_id M \<le> fresh_id M'"
proof -
  have "foldr max (map iid (all_insts M)) 0 \<le> foldr max (map iid (all_insts M')) 0"
  proof (rule foldr_max_le)
    fix x assume "x \<in> set (map iid (all_insts M))"
    then obtain i where i: "i \<in> set (all_insts M)" "x = iid i" by auto
    from assms [OF i(1)] obtain i' where "i' \<in> set (all_insts M')" "iid i \<le> iid i'" by auto
    with foldr_max_ge [of "iid i'" "map iid (all_insts M')" 0] i(2)
    show "x \<le> foldr max (map iid (all_insts M')) 0" by auto
  qed simp
  then show ?thesis by (simp add: fresh_id_def)
qed

lemma get_inst_Some_iff:
  "wf_module M \<Longrightarrow> get_inst M j = Some i \<longleftrightarrow> i \<in> set (all_insts M) \<and> iid i = j"
proof -
  have "distinct (map iid xs) \<Longrightarrow> find (\<lambda>i. iid i = j) xs = Some i \<longleftrightarrow> i \<in> set xs \<and> iid i = j" for xs
    by (induction xs) (auto simp: rev_image_eqI)
  then show "wf_module M \<Longrightarrow> ?thesis" by (simp add: wf_module_def get_inst_def)
qed

lemma get_inst_SomeD: "get_inst M j = Some i \<Longrightarrow> i \<in> set (all_insts M) \<and> iid i = j"
  unfolding get_inst_def by (metis (mono_tags, lifting) find_Some_iff nth_mem)

lemma get_inst_None_iff: "get_inst M j = None \<longleftrightarrow> j \<notin> inst_ids M"
  unfolding get_inst_def inst_ids_def by (auto simp: find_None_iff)

subsection \<open>The rewrites on one instruction list\<close>

lemma insert_before_l_absent: "t \<notin> iid ` set xs \<Longrightarrow> insert_before_l t new xs = xs"
  by (induction xs) auto

lemma insert_after_l_absent: "t \<notin> iid ` set xs \<Longrightarrow> insert_after_l t new xs = xs"
  by (induction xs) auto

definition rc_expand :: "nat \<Rightarrow> inst list \<Rightarrow> val \<Rightarrow> inst \<Rightarrow> inst list" where
  "rc_expand ci news v i = (if iid i = ci then news else [subst_inst ci v i])"

lemma subst_inst_iid [simp]: "iid (subst_inst old new i) = iid i"
  by (simp add: subst_inst_def)

lemma rc_expand_absent:
  "ci \<notin> iid ` set xs \<Longrightarrow> concat (map (rc_expand ci news v) xs) = map (subst_inst ci v) xs"
  by (induction xs) (auto simp: rc_expand_def)

lemma rc_body:
  assumes "distinct (map iid xs)" and "\<forall>x \<in> set xs. iid x < n"
    and "iid a = n" "iid c = n + 1" "iid r = n + 2" "iid l = n + 3"
  shows "filter (\<lambda>i. iid i \<noteq> ci) (map (subst_inst ci v)
           (insert_after_l (n + 2) l (insert_before_l (n + 1) a
              (insert_before_l (n + 2) c (insert_before_l ci r xs))))) =
         concat (map (rc_expand ci (filter (\<lambda>i. iid i \<noteq> ci) (map (subst_inst ci v) [a, c, r, l])) v) xs)"
  using assms(1,2)
proof (induction xs)
  case Nil
  then show ?case by simp
next
  case (Cons x xs)
  have abs: "n \<notin> iid ` set xs" "n + 1 \<notin> iid ` set xs" "n + 2 \<notin> iid ` set xs" "iid x < n"
    using Cons.prems(2) by auto
  show ?case
  proof (cases "iid x = ci")
    case True
    with Cons.prems(1) have ci: "ci \<notin> iid ` set xs" by auto
    then have "filter (\<lambda>i. iid i \<noteq> ci) (map (subst_inst ci v) xs) = map (subst_inst ci v) xs"
      by (induction xs) auto
    moreover have "rc_expand ci news v x = news" for news
      using True by (simp add: rc_expand_def)
    ultimately show ?thesis
      using True assms(3-6) abs ci by (simp add: rc_expand_absent [OF ci])
  next
    case False
    then have "rc_expand ci news v x = [subst_inst ci v x]" for news
      by (simp add: rc_expand_def)
    with False Cons assms(3-6) abs show ?thesis
      by simp
  qed
qed

lemma map_bodies_comp: "map_bodies f (map_bodies g M) = map_bodies (\<lambda>xs. f (g xs)) M"
  by (simp add: map_bodies_def comp_def)

lemma all_insts_map_bodies:
  "all_insts (map_bodies g M) = concat (map (\<lambda>F. g (body F)) (funcs M))"
  by (simp add: all_insts_def map_bodies_def comp_def)

lemma map_bodies_fields [simp]:
  "globals (map_bodies g M) = globals M"
  "pointer_bits (map_bodies g M) = pointer_bits M"
  "type_alloc_size (map_bodies g M) = type_alloc_size M"
  "map fname (funcs (map_bodies g M)) = map fname (funcs M)"
  by (simp_all add: map_bodies_def comp_def)

lemma all_insts_expand:
  assumes "\<And>F. F \<in> set (funcs M) \<Longrightarrow> g (body F) = concat (map h (body F))"
  shows "all_insts (map_bodies g M) = concat (map h (all_insts M))"
proof -
  have "concat (map (\<lambda>F. g (body F)) Fs) = concat (map h (concat (map body Fs)))"
    if "set Fs \<subseteq> set (funcs M)" for Fs
    using that by (induction Fs) (auto simp: assms)
  from this [of "funcs M"] show ?thesis
    unfolding all_insts_map_bodies by (simp add: all_insts_def)
qed

lemma wf_body:
  assumes "wf_module M" "F \<in> set (funcs M)"
  shows "distinct (map iid (body F))" and "\<forall>x \<in> set (body F). iid x < fresh_id M"
proof -
  from assms(2) obtain as bs where "funcs M = as @ F # bs" by (auto dest: split_list)
  then have ai: "all_insts M = concat (map body as) @ body F @ concat (map body bs)"
    by (simp add: all_insts_def)
  with assms(1) show "distinct (map iid (body F))" by (simp add: wf_module_def)
  from ai show "\<forall>x \<in> set (body F). iid x < fresh_id M"
    by (auto intro: fresh_id_gt)
qed

definition klee_decl :: "ty \<Rightarrow> func" where
  "klee_decl szt = \<lparr>fname = ''klee_make_nondet'', ret_ty = VoidTy,
                    param_tys = [i8ptr, szt, i8ptr, IntTy 32], body = []\<rparr>"

lemma get_size_t_fields:
  "get_size_t M st = (st1, szt) \<Longrightarrow>
     calls_to_replace st1 = calls_to_replace st \<and> allocs_to_handle st1 = allocs_to_handle st \<and>
     lines_nums st1 = lines_nums st \<and> lines st1 = lines st \<and> vms st1 = vms st \<and>
     call_identifier st1 = call_identifier st \<and>
     alloc_call_identifier st1 = alloc_call_identifier st"
  by (auto simp: get_size_t_def Let_def split: option.splits)

lemma find_SomeD: "find P xs = Some x \<Longrightarrow> x \<in> set xs \<and> P x"
  by (induction xs) (auto split: if_splits)

lemma find_fname_None: "find (\<lambda>f. fname f = n) Fs = None \<longleftrightarrow> n \<notin> fname ` set Fs"
  by (auto simp: find_None_iff)

lemma get_verifier_make_nondet_Inr:
  assumes "get_verifier_make_nondet M st = Inr (M2, st2, f)"
  shows "vms st2 = Some f"
    and "vms st = None \<Longrightarrow> f = ''klee_make_nondet''"
    and "vms st = Some g \<Longrightarrow> f = g \<and> M2 = M"
    and "globals M2 = globals M" "pointer_bits M2 = pointer_bits M"
      "type_alloc_size M2 = type_alloc_size M"
    and "\<exists>extra. funcs M2 = funcs M @ extra \<and>
           (extra = [] \<or> (\<exists>szt. extra = [klee_decl szt])) \<and>
           (extra \<noteq> [] \<longleftrightarrow> vms st = None \<and> ''klee_make_nondet'' \<notin> fname ` set (funcs M))"
    and "calls_to_replace st2 = calls_to_replace st" "allocs_to_handle st2 = allocs_to_handle st"
      "lines_nums st2 = lines_nums st" "lines st2 = lines st"
      "call_identifier st2 = call_identifier st"
      "alloc_call_identifier st2 = alloc_call_identifier st"
proof -
  show "vms st2 = Some f" "vms st = None \<Longrightarrow> f = ''klee_make_nondet''"
    "vms st = Some g \<Longrightarrow> f = g \<and> M2 = M"
    "globals M2 = globals M" "pointer_bits M2 = pointer_bits M"
    "type_alloc_size M2 = type_alloc_size M"
    "calls_to_replace st2 = calls_to_replace st" "allocs_to_handle st2 = allocs_to_handle st"
    "lines_nums st2 = lines_nums st" "lines st2 = lines st"
    "call_identifier st2 = call_identifier st"
    "alloc_call_identifier st2 = alloc_call_identifier st"
    using assms
    by (auto simp: get_verifier_make_nondet_def get_size_t_def Let_def
        split: option.splits prod.splits if_splits)
  show "\<exists>extra. funcs M2 = funcs M @ extra \<and>
           (extra = [] \<or> (\<exists>szt. extra = [klee_decl szt])) \<and>
           (extra \<noteq> [] \<longleftrightarrow> vms st = None \<and> ''klee_make_nondet'' \<notin> fname ` set (funcs M))"
  proof (cases "vms st")
    case (Some g)
    with assms show ?thesis by (simp add: get_verifier_make_nondet_def)
  next
    case None
    obtain st1 szt where gs: "get_size_t M st = (st1, szt)" by (cases "get_size_t M st")
    show ?thesis
    proof (cases "find (\<lambda>f. fname f = ''klee_make_nondet'') (funcs M)")
      case n: None
      have "''klee_make_nondet'' \<notin> fname ` set (funcs M)"
        by (rule find_fname_None [THEN iffD1, OF n])
      moreover from assms None gs n have "funcs M2 = funcs M @ [klee_decl szt]"
        by (auto simp: get_verifier_make_nondet_def klee_decl_def)
      ultimately show ?thesis using None by auto
    next
      case (Some F)
      from find_SomeD [OF Some] have "F \<in> set (funcs M)" "''klee_make_nondet'' = fname F"
        by simp_all
      then have k: "''klee_make_nondet'' \<in> fname ` set (funcs M)"
        by (rule rev_image_eqI)
      from assms None gs Some have "funcs M2 = funcs M"
        by (auto simp: get_verifier_make_nondet_def split: if_splits)
      with k show ?thesis by (intro exI [of _ "[]"]) simp
    qed
  qed
qed

definition rc_new :: "inst \<Rightarrow> nat \<Rightarrow> ty \<Rightarrow> nat \<Rightarrow> nat \<Rightarrow> nat \<Rightarrow> string \<Rightarrow> string \<Rightarrow> inst list" where
  "rc_new CI n szt sz g k f name =
     [\<lparr>iid = n, iop = Alloca (ity CI), operands = [], ity = PtrTy (ity CI), iname = [],
       dbg_line = None, metadata = [], attrs = []\<rparr>,
      \<lparr>iid = n + 1, iop = PtrCast, operands = [VInst n], ity = i8ptr, iname = [],
       dbg_line = None, metadata = [], attrs = []\<rparr>,
      \<lparr>iid = n + 2, iop = Call,
       operands = [VInst (n + 1), VConstInt szt sz, VGlobalCast g i8ptr,
                   VConstInt (IntTy 32) k, VFunc f],
       ity = VoidTy, iname = [], dbg_line = dbg_line CI, metadata = metadata CI,
       attrs = attrs CI\<rparr>,
      \<lparr>iid = n + 3, iop = Load, operands = [VInst n], ity = ity CI, iname = name,
       dbg_line = None, metadata = [], attrs = []\<rparr>]"

definition site_name :: "string \<Rightarrow> string \<Rightarrow> nat \<Rightarrow> string" where
  "site_name parent var line = parent @ '':'' @ var @ '':'' @ to_string line"

lemma get_size_t_globals:
  "get_size_t (M\<lparr>globals := gs\<rparr>) st = get_size_t M st"
  by (simp add: get_size_t_def)

lemma fresh_id_globals [simp]: "fresh_id (M\<lparr>globals := gs\<rparr>) = fresh_id M"
  by (simp add: fresh_id_def all_insts_def)

lemma replaceCall_unfold:
  assumes "replaceCall M st ci l var = Inr (M', st')"
  obtains CI F st1 szt M2 f news where
    "get_inst M ci = Some CI" "get_parent M ci = Some F" "ity CI \<noteq> VoidTy"
    "get_size_t M st = (st1, szt)"
    "get_verifier_make_nondet
       (M\<lparr>globals := globals M @
            [\<lparr>gty = ArrayTy (Suc (length (site_name (fname F) var l))) (IntTy 8),
              gconstant = True, ginit = site_name (fname F) var l\<rparr>]\<rparr>)
       (st1\<lparr>call_identifier := call_identifier st1 + 1\<rparr>) = Inr (M2, st', f)"
    "news = rc_new CI (fresh_id M) szt (type_alloc_size M (ity CI)) (length (globals M))
              (unat (call_identifier st + 1)) f (site_name (fname F) var l)"
    "M' = map_bodies
            (\<lambda>xs. filter (\<lambda>i. iid i \<noteq> ci) (map (subst_inst ci (VInst (fresh_id M + 3)))
               (insert_after_l (fresh_id M + 2) (news ! 3)
               (insert_before_l (fresh_id M + 1) (news ! 0)
               (insert_before_l (fresh_id M + 2) (news ! 1)
               (insert_before_l ci (news ! 2) xs)))))) M2"
proof -
  from assms obtain CI F where gi: "get_inst M ci = Some CI" and gp: "get_parent M ci = Some F"
    by (cases "get_inst M ci"; cases "get_parent M ci") (simp_all add: replaceCall_def)
  from assms gi gp have nv: "ity CI \<noteq> VoidTy"
    by (auto simp: replaceCall_def Let_def add_name_global_def)
  obtain st1 szt where gs: "get_size_t M st = (st1, szt)" by (cases "get_size_t M st")
  from get_size_t_fields [OF gs] have ci1: "call_identifier st1 = call_identifier st" by simp
  let ?g = "M\<lparr>globals := globals M @
            [\<lparr>gty = ArrayTy (Suc (length (site_name (fname F) var l))) (IntTy 8),
              gconstant = True, ginit = site_name (fname F) var l\<rparr>]\<rparr>"
  let ?st = "st1\<lparr>call_identifier := call_identifier st1 + 1\<rparr>"
  from assms gi gp nv gs obtain M2 f where
    gv: "get_verifier_make_nondet ?g ?st = Inr (M2, st', f)"
    by (cases "get_verifier_make_nondet ?g ?st")
      (auto simp: replaceCall_def Let_def add_name_global_def get_size_t_globals site_name_def)
  define news where "news = rc_new CI (fresh_id M) szt (type_alloc_size M (ity CI))
     (length (globals M)) (unat (call_identifier st + 1)) f (site_name (fname F) var l)"
  from assms gi gp nv gs ci1 gv have
    "M' = map_bodies
            (\<lambda>xs. filter (\<lambda>i. iid i \<noteq> ci) (map (subst_inst ci (VInst (fresh_id M + 3)))
               (insert_after_l (fresh_id M + 2) (news ! 3)
               (insert_before_l (fresh_id M + 1) (news ! 0)
               (insert_before_l (fresh_id M + 2) (news ! 1)
               (insert_before_l ci (news ! 2) xs)))))) M2"
    by (simp add: replaceCall_def Let_def add_name_global_def get_size_t_globals rc_new_def
        site_name_def insertBefore_def insertAfter_def replaceAllUsesWith_def
        eraseFromParent_def map_bodies_comp news_def)
  with gi gp nv gs gv news_def show thesis by (rule that)
qed

lemma rc_new_nth:
  "iid (rc_new CI n szt sz g k f name ! 0) = n"
  "iid (rc_new CI n szt sz g k f name ! 1) = n + 1"
  "iid (rc_new CI n szt sz g k f name ! 2) = n + 2"
  "iid (rc_new CI n szt sz g k f name ! 3) = n + 3"
  by (simp_all add: rc_new_def)

lemma rc_new_list:
  "[rc_new CI n szt sz g k f name ! 0, rc_new CI n szt sz g k f name ! 1,
    rc_new CI n szt sz g k f name ! 2, rc_new CI n szt sz g k f name ! 3] =
   rc_new CI n szt sz g k f name"
  by (simp add: rc_new_def)

lemma rc_new_subst:
  "ci < n \<Longrightarrow>
   filter (\<lambda>i. iid i \<noteq> ci) (map (subst_inst ci v) (rc_new CI n szt sz g k f name)) =
   rc_new CI n szt sz g k f name"
  by (simp add: rc_new_def subst_inst_def subst_val_def)

definition body_map :: "(inst \<Rightarrow> inst list) \<Rightarrow> func \<Rightarrow> func" where
  "body_map h F = F\<lparr>body := concat (map h (body F))\<rparr>"

lemma body_map_fname [simp]: "fname (body_map h F) = fname F"
  by (simp add: body_map_def)

lemma body_map_body [simp]: "body (body_map h F) = concat (map h (body F))"
  by (simp add: body_map_def)

lemma body_map_klee [simp]: "body_map h (klee_decl szt) = klee_decl szt"
  by (simp add: body_map_def klee_decl_def)

lemma all_insts_body_map:
  "funcs M' = map (body_map h) Fs \<Longrightarrow> concat (map body Fs) = all_insts M \<Longrightarrow>
   all_insts M' = concat (map h (all_insts M))"
proof -
  assume a: "funcs M' = map (body_map h) Fs" and b: "concat (map body Fs) = all_insts M"
  have "concat (map body (map (body_map h) Fs)) = concat (map h (concat (map body Fs)))"
    by (induction Fs) auto
  with a b show ?thesis by (simp add: all_insts_def)
qed

lemma replaceCall_step:
  assumes rc: "replaceCall M st ci l var = Inr (M', st')" and wf: "wf_module M"
  obtains CI F szt f extra news where
    "CI \<in> set (all_insts M)" "iid CI = ci" "get_parent M ci = Some F" "ity CI \<noteq> VoidTy"
    "vms st' = Some f" "vms st = None \<longrightarrow> f = ''klee_make_nondet''"
    "\<forall>g. vms st = Some g \<longrightarrow> f = g"
    "news = rc_new CI (fresh_id M) szt (type_alloc_size M (ity CI)) (length (globals M))
              (unat (call_identifier st + 1)) f (site_name (fname F) var l)"
    "funcs M' = map (body_map (rc_expand ci news (VInst (fresh_id M + 3)))) (funcs M @ extra)"
    "extra = [] \<or> (\<exists>t. extra = [klee_decl t])"
    "extra \<noteq> [] \<longleftrightarrow> vms st = None \<and> ''klee_make_nondet'' \<notin> fname ` set (funcs M)"
    "globals M' = globals M @
       [\<lparr>gty = ArrayTy (Suc (length (site_name (fname F) var l))) (IntTy 8),
         gconstant = True, ginit = site_name (fname F) var l\<rparr>]"
    "pointer_bits M' = pointer_bits M" "type_alloc_size M' = type_alloc_size M"
    "calls_to_replace st' = calls_to_replace st" "allocs_to_handle st' = allocs_to_handle st"
    "lines_nums st' = lines_nums st" "lines st' = lines st"
    "call_identifier st' = call_identifier st + 1"
    "alloc_call_identifier st' = alloc_call_identifier st"
proof -
  from rc obtain CI F st1 szt M2 f news where
    gi: "get_inst M ci = Some CI" and gp: "get_parent M ci = Some F" and nv: "ity CI \<noteq> VoidTy"
    and gs: "get_size_t M st = (st1, szt)"
    and gv: "get_verifier_make_nondet
             (M\<lparr>globals := globals M @
                  [\<lparr>gty = ArrayTy (Suc (length (site_name (fname F) var l))) (IntTy 8),
                    gconstant = True, ginit = site_name (fname F) var l\<rparr>]\<rparr>)
             (st1\<lparr>call_identifier := call_identifier st1 + 1\<rparr>) = Inr (M2, st', f)"
    and news_def: "news = rc_new CI (fresh_id M) szt (type_alloc_size M (ity CI))
              (length (globals M)) (unat (call_identifier st + 1)) f (site_name (fname F) var l)"
    and M': "M' = map_bodies
            (\<lambda>xs. filter (\<lambda>i. iid i \<noteq> ci) (map (subst_inst ci (VInst (fresh_id M + 3)))
               (insert_after_l (fresh_id M + 2) (news ! 3)
               (insert_before_l (fresh_id M + 1) (news ! 0)
               (insert_before_l (fresh_id M + 2) (news ! 1)
               (insert_before_l ci (news ! 2) xs)))))) M2"
    by (rule replaceCall_unfold)
  define n where "n = fresh_id M"
  note sf = get_size_t_fields [OF gs]
  note gvf = get_verifier_make_nondet_Inr [OF gv]
  from get_inst_SomeD [OF gi] have CI: "CI \<in> set (all_insts M)" "iid CI = ci" by simp_all
  then have lt: "ci < n" using fresh_id_gt [of CI M] by (simp add: n_def)
  from gvf(7) obtain extra where
    ex: "funcs M2 = funcs M @ extra" "extra = [] \<or> (\<exists>t. extra = [klee_decl t])"
      "extra \<noteq> [] \<longleftrightarrow> vms st = None \<and> ''klee_make_nondet'' \<notin> fname ` set (funcs M)"
    using sf by auto
  define g where "g = (\<lambda>xs. filter (\<lambda>i. iid i \<noteq> ci) (map (subst_inst ci (VInst (n + 3)))
                     (insert_after_l (n + 2) (news ! 3)
                     (insert_before_l (n + 1) (news ! 0)
                     (insert_before_l (n + 2) (news ! 1)
                     (insert_before_l ci (news ! 2) xs))))))"
  have M'g: "M' = map_bodies g M2" unfolding M' g_def n_def ..
  have body: "g (body G) = concat (map (rc_expand ci news (VInst (n + 3))) (body G))"
    if "G \<in> set (funcs M2)" for G
  proof -
    from that ex(1,2) have G: "G \<in> set (funcs M) \<or> body G = []"
      by (auto simp: klee_decl_def)
    have d: "distinct (map iid (body G))"
    proof (cases "body G = []")
      case True then show ?thesis by simp
    next
      case False
      with G have "G \<in> set (funcs M)" by simp
      then show ?thesis by (rule wf_body(1) [OF wf])
    qed
    have b: "\<forall>x \<in> set (body G). iid x < n"
    proof (cases "body G = []")
      case True then show ?thesis by simp
    next
      case False
      with G have "G \<in> set (funcs M)" by simp
      then show ?thesis unfolding n_def by (rule wf_body(2) [OF wf])
    qed
    have ids: "iid (news ! 0) = n" "iid (news ! 1) = n + 1" "iid (news ! 2) = n + 2"
      "iid (news ! 3) = n + 3"
      unfolding news_def n_def by (rule rc_new_nth)+
    have l4: "[news ! 0, news ! 1, news ! 2, news ! 3] = news"
      unfolding news_def by (rule rc_new_list)
    have sb: "filter (\<lambda>i. iid i \<noteq> ci) (map (subst_inst ci (VInst (n + 3))) news) = news"
      unfolding news_def using lt [unfolded n_def] by (rule rc_new_subst)
    from rc_body [OF d b ids, of ci "VInst (n + 3)"] show ?thesis
      unfolding g_def l4 sb .
  qed
  have "funcs M' = map (body_map (rc_expand ci news (VInst (n + 3)))) (funcs M2)"
    unfolding M'g by (simp add: map_bodies_def body_map_def body cong: map_cong)
  with ex(1) have fm: "funcs M' = map (body_map (rc_expand ci news (VInst (n + 3)))) (funcs M @ extra)"
    by simp
  have gl: "globals M' = globals M @
             [\<lparr>gty = ArrayTy (Suc (length (site_name (fname F) var l))) (IntTy 8),
               gconstant = True, ginit = site_name (fname F) var l\<rparr>]"
    and pb: "pointer_bits M' = pointer_bits M" "type_alloc_size M' = type_alloc_size M"
    using gvf(4-6) unfolding M'g by simp_all
  from gvf(2,3) sf have f: "vms st = None \<longrightarrow> f = ''klee_make_nondet''" "\<forall>g. vms st = Some g \<longrightarrow> f = g"
    by auto
  from gvf(8-13) sf have stf: "calls_to_replace st' = calls_to_replace st"
    "allocs_to_handle st' = allocs_to_handle st" "lines_nums st' = lines_nums st"
    "lines st' = lines st" "call_identifier st' = call_identifier st + 1"
    "alloc_call_identifier st' = alloc_call_identifier st"
    by simp_all
  show thesis
    by (rule that [OF CI gp nv gvf(1) f news_def fm [unfolded n_def] ex(2,3) gl pb stf])
qed

definition ha_expand :: "nat \<Rightarrow> inst list \<Rightarrow> inst \<Rightarrow> inst list" where
  "ha_expand ci news i = (if iid i = ci then i # news else [i])"

definition ha_cast :: "nat \<Rightarrow> nat \<Rightarrow> inst" where
  "ha_cast ci n = \<lparr>iid = n, iop = PtrCast, operands = [VInst ci], ity = i8ptr, iname = [],
                  dbg_line = None, metadata = [], attrs = []\<rparr>"

definition ha_mul :: "inst \<Rightarrow> nat \<Rightarrow> ty \<Rightarrow> inst" where
  "ha_mul CI n t = \<lparr>iid = n + 1, iop = Mul, operands = [operands CI ! 0, operands CI ! 1],
                    ity = t, iname = [], dbg_line = None, metadata = [], attrs = []\<rparr>"

definition ha_call :: "nat \<Rightarrow> val \<Rightarrow> nat \<Rightarrow> nat \<Rightarrow> string \<Rightarrow> inst" where
  "ha_call n nbytes g k f =
     \<lparr>iid = n + 2, iop = Call,
      operands = [VInst n, nbytes, VGlobalCast g i8ptr, VConstInt (IntTy 32) k, VFunc f],
      ity = VoidTy, iname = [], dbg_line = None, metadata = [], attrs = []\<rparr>"

lemma ha_body_calloc:
  assumes "distinct (map iid xs)" and "\<forall>x \<in> set xs. iid x < n"
    and "iid c = n" "iid m = n + 1" "iid r = n + 2"
  shows "insert_after_l n r (insert_before_l n m (insert_after_l ci c xs)) =
         concat (map (ha_expand ci [m, c, r]) xs)"
  using assms(1,2)
proof (induction xs)
  case Nil
  then show ?case by simp
next
  case (Cons x xs)
  have abs: "n \<notin> iid ` set xs" "iid x \<noteq> n" using Cons.prems(2) by auto
  show ?case
  proof (cases "iid x = ci")
    case True
    with Cons.prems(1) have ci: "ci \<notin> iid ` set xs" by auto
    then have "concat (map (ha_expand ci [m, c, r]) xs) = xs"
      by (induction xs) (auto simp: ha_expand_def)
    moreover have "ha_expand ci [m, c, r] x = [x, m, c, r]"
      using True by (simp add: ha_expand_def)
    ultimately show ?thesis
      using True assms(3-5) abs by simp
  next
    case False
    then have "ha_expand ci [m, c, r] x = [x]" by (simp add: ha_expand_def)
    with False Cons assms(3-5) abs show ?thesis by simp
  qed
qed

lemma ha_body_malloc:
  assumes "distinct (map iid xs)" and "\<forall>x \<in> set xs. iid x < n"
    and "iid c = n" "iid r = n + 2"
  shows "insert_after_l n r (insert_after_l ci c xs) = concat (map (ha_expand ci [c, r]) xs)"
  using assms(1,2)
proof (induction xs)
  case Nil
  then show ?case by simp
next
  case (Cons x xs)
  have abs: "n \<notin> iid ` set xs" "iid x \<noteq> n" using Cons.prems(2) by auto
  show ?case
  proof (cases "iid x = ci")
    case True
    with Cons.prems(1) have ci: "ci \<notin> iid ` set xs" by auto
    then have "concat (map (ha_expand ci [c, r]) xs) = xs"
      by (induction xs) (auto simp: ha_expand_def)
    moreover have "ha_expand ci [c, r] x = [x, c, r]"
      using True by (simp add: ha_expand_def)
    ultimately show ?thesis
      using True assms(3-4) abs by simp
  next
    case False
    then have "ha_expand ci [c, r] x = [x]" by (simp add: ha_expand_def)
    with False Cons assms(3-4) abs show ?thesis by simp
  qed
qed

lemma insert_fields [simp]:
  "globals (insertAfter c t M) = globals M" "globals (insertBefore c t M) = globals M"
  "pointer_bits (insertAfter c t M) = pointer_bits M"
  "pointer_bits (insertBefore c t M) = pointer_bits M"
  "type_alloc_size (insertAfter c t M) = type_alloc_size M"
  "type_alloc_size (insertBefore c t M) = type_alloc_size M"
  by (simp_all add: insertAfter_def insertBefore_def)

definition ha_M1 :: "module \<Rightarrow> string \<Rightarrow> module" where
  "ha_M1 M name = M\<lparr>globals := globals M @
       [\<lparr>gty = ArrayTy (Suc (length name)) (IntTy 8), gconstant = True, ginit = name\<rparr>]\<rparr>"

lemma fresh_id_ha_M1 [simp]: "fresh_id (ha_M1 M name) = fresh_id M"
  by (simp add: ha_M1_def)

lemma alloc_id_upd: "alloc_call_identifier (st\<lparr>alloc_call_identifier := x\<rparr>) = x"
  by simp

lemma handleAlloc_eq:
  assumes "get_inst M ci = Some CI" "get_parent M ci = Some F" "ity CI = PtrTy t"
    "getCalledFunction CI = Some callee"
  shows "handleAlloc M st ci l var =
    (let M2 = insertAfter (ha_cast ci (fresh_id M)) ci (ha_M1 M (site_name (fname F) var l)) in
     if callee = ''calloc'' \<and>
        (length (operands CI) < 2 \<or> val_ty M2 (operands CI ! 0) \<noteq> val_ty M2 (operands CI ! 1))
     then Inl (Crash ''BinaryOperator::Create'', M2)
     else (case get_verifier_make_nondet
                 (if callee = ''calloc''
                  then insertBefore (ha_mul CI (fresh_id M) (val_ty M2 (operands CI ! 0)))
                         (fresh_id M) M2
                  else M2)
                 (st\<lparr>alloc_call_identifier := alloc_call_identifier st + 1\<rparr>) of
             Inl err \<Rightarrow> Inl err
           | Inr (M4, st2, f) \<Rightarrow>
               Inr (insertAfter
                      (ha_call (fresh_id M)
                         (if callee = ''calloc'' then VInst (fresh_id M + 1) else operands CI ! 0)
                         (length (globals M)) (unat (alloc_call_identifier st + 1)) f)
                      (fresh_id M) M4, st2)))"
  using assms
  by (simp only: handleAlloc_def Let_def add_name_global_def site_name_def ha_cast_def
      ha_mul_def ha_call_def ha_M1_def option.case prod.case ty.case fresh_id_globals
      alloc_id_upd append.simps)

lemma handleAlloc_unfold:
  assumes "handleAlloc M st ci l var = Inr (M', st')"
  obtains CI F t callee M3 M4 f mt where
    "get_inst M ci = Some CI" "get_parent M ci = Some F" "ity CI = PtrTy t"
    "getCalledFunction CI = Some callee"
    "callee = ''calloc'' \<longrightarrow> 2 \<le> length (operands CI)"
    "M3 = (if callee = ''calloc''
           then map_bodies (\<lambda>xs. insert_before_l (fresh_id M) (ha_mul CI (fresh_id M) mt)
                    (insert_after_l ci (ha_cast ci (fresh_id M)) xs))
                  (ha_M1 M (site_name (fname F) var l))
           else map_bodies (insert_after_l ci (ha_cast ci (fresh_id M)))
                  (ha_M1 M (site_name (fname F) var l)))"
    "get_verifier_make_nondet M3 (st\<lparr>alloc_call_identifier := alloc_call_identifier st + 1\<rparr>)
       = Inr (M4, st', f)"
    "M' = map_bodies (insert_after_l (fresh_id M)
            (ha_call (fresh_id M)
               (if callee = ''calloc'' then VInst (fresh_id M + 1) else operands CI ! 0)
               (length (globals M)) (unat (alloc_call_identifier st + 1)) f)) M4"
proof -
  from assms obtain CI F where gi: "get_inst M ci = Some CI" and gp: "get_parent M ci = Some F"
    by (cases "get_inst M ci"; cases "get_parent M ci") (simp_all add: handleAlloc_def)
  from assms gi gp obtain t where pt: "ity CI = PtrTy t"
    by (cases "ity CI") (simp_all add: handleAlloc_def Let_def add_name_global_def)
  from assms gi gp pt obtain callee where cf: "getCalledFunction CI = Some callee"
    by (cases "getCalledFunction CI") (simp_all add: handleAlloc_def Let_def add_name_global_def)
  define M2 where "M2 = insertAfter (ha_cast ci (fresh_id M)) ci (ha_M1 M (site_name (fname F) var l))"
  define mt where "mt = val_ty M2 (operands CI ! 0)"
  define M3 where "M3 = (if callee = ''calloc''
           then map_bodies (\<lambda>xs. insert_before_l (fresh_id M) (ha_mul CI (fresh_id M) mt)
                    (insert_after_l ci (ha_cast ci (fresh_id M)) xs))
                  (ha_M1 M (site_name (fname F) var l))
           else map_bodies (insert_after_l ci (ha_cast ci (fresh_id M)))
                  (ha_M1 M (site_name (fname F) var l)))"
  define st1 where "st1 = st\<lparr>alloc_call_identifier := alloc_call_identifier st + 1\<rparr>"
  define bad where "bad \<longleftrightarrow> callee = ''calloc'' \<and>
        (length (operands CI) < 2 \<or> mt \<noteq> val_ty M2 (operands CI ! 1))"
  have M3': "(if callee = ''calloc''
              then insertBefore (ha_mul CI (fresh_id M) mt) (fresh_id M) M2 else M2) = M3"
    by (simp add: M3_def M2_def insertBefore_def insertAfter_def map_bodies_comp)
  have eq: "handleAlloc M st ci l var =
    (if bad then Inl (Crash ''BinaryOperator::Create'', M2)
     else (case get_verifier_make_nondet M3 st1 of
             Inl err \<Rightarrow> Inl err
           | Inr (M4, st2, f) \<Rightarrow>
               Inr (insertAfter
                      (ha_call (fresh_id M)
                         (if callee = ''calloc'' then VInst (fresh_id M + 1) else operands CI ! 0)
                         (length (globals M)) (unat (alloc_call_identifier st + 1)) f)
                      (fresh_id M) M4, st2)))"
    unfolding handleAlloc_eq [OF gi gp pt cf] Let_def M2_def [symmetric] mt_def [symmetric]
      M3' st1_def [symmetric] bad_def [symmetric] ..
  from assms have nb: "\<not> bad" unfolding eq by (cases bad) simp_all
  then have len: "callee = ''calloc'' \<longrightarrow> 2 \<le> length (operands CI)"
    by (auto simp: bad_def)
  from assms nb obtain M4 f where gv: "get_verifier_make_nondet M3 st1 = Inr (M4, st', f)"
    unfolding eq by (cases "get_verifier_make_nondet M3 st1") auto
  from assms nb gv have
    "M' = map_bodies (insert_after_l (fresh_id M)
            (ha_call (fresh_id M)
               (if callee = ''calloc'' then VInst (fresh_id M + 1) else operands CI ! 0)
               (length (globals M)) (unat (alloc_call_identifier st + 1)) f)) M4"
    unfolding eq by (simp add: insertAfter_def)
  with gi gp pt cf len M3_def gv [unfolded st1_def] show thesis by (rule that)
qed

definition ha_news :: "inst \<Rightarrow> nat \<Rightarrow> nat \<Rightarrow> string \<Rightarrow> ty \<Rightarrow> nat \<Rightarrow> nat \<Rightarrow> string \<Rightarrow> inst list" where
  "ha_news CI ci n callee mt g k f =
     (if callee = ''calloc''
      then [ha_mul CI n mt, ha_cast ci n, ha_call n (VInst (n + 1)) g k f]
      else [ha_cast ci n, ha_call n (operands CI ! 0) g k f])"

lemma ha_M1_fields [simp]:
  "funcs (ha_M1 M name) = funcs M"
  "globals (ha_M1 M name) = globals M @
     [\<lparr>gty = ArrayTy (Suc (length name)) (IntTy 8), gconstant = True, ginit = name\<rparr>]"
  "pointer_bits (ha_M1 M name) = pointer_bits M"
  "type_alloc_size (ha_M1 M name) = type_alloc_size M"
  by (simp_all add: ha_M1_def)

lemma funcs_map_bodies: "funcs (map_bodies g M) = map (\<lambda>G. G\<lparr>body := g (body G)\<rparr>) (funcs M)"
  by (simp add: map_bodies_def)

lemma image_fname_map_bodies [simp]:
  "fname ` set (funcs (map_bodies g M)) = fname ` set (funcs M)"
  by (simp add: map_bodies_def image_image)

lemma handleAlloc_step:
  assumes ha: "handleAlloc M st ci l var = Inr (M', st')" and wf: "wf_module M"
  obtains CI F t callee f extra mt news where
    "CI \<in> set (all_insts M)" "iid CI = ci" "get_parent M ci = Some F"
    "ity CI = PtrTy t" "getCalledFunction CI = Some callee"
    "callee = ''calloc'' \<longrightarrow> 2 \<le> length (operands CI)"
    "vms st' = Some f" "vms st = None \<longrightarrow> f = ''klee_make_nondet''"
    "\<forall>g. vms st = Some g \<longrightarrow> f = g"
    "news = ha_news CI ci (fresh_id M) callee mt (length (globals M))
              (unat (alloc_call_identifier st + 1)) f"
    "funcs M' = map (body_map (ha_expand ci news)) (funcs M @ extra)"
    "extra = [] \<or> (\<exists>t. extra = [klee_decl t])"
    "extra \<noteq> [] \<longleftrightarrow> vms st = None \<and> ''klee_make_nondet'' \<notin> fname ` set (funcs M)"
    "globals M' = globals M @
       [\<lparr>gty = ArrayTy (Suc (length (site_name (fname F) var l))) (IntTy 8),
         gconstant = True, ginit = site_name (fname F) var l\<rparr>]"
    "pointer_bits M' = pointer_bits M" "type_alloc_size M' = type_alloc_size M"
    "calls_to_replace st' = calls_to_replace st" "allocs_to_handle st' = allocs_to_handle st"
    "lines_nums st' = lines_nums st" "lines st' = lines st"
    "call_identifier st' = call_identifier st"
    "alloc_call_identifier st' = alloc_call_identifier st + 1"
proof -
  define n where "n = fresh_id M"
  from ha obtain CI F t callee M3 M4 f mt where
    gi: "get_inst M ci = Some CI" and gp: "get_parent M ci = Some F" and pt: "ity CI = PtrTy t"
    and cf: "getCalledFunction CI = Some callee"
    and len': "callee = ''calloc'' \<longrightarrow> 2 \<le> length (operands CI)"
    and M3: "M3 = (if callee = ''calloc''
           then map_bodies (\<lambda>xs. insert_before_l (fresh_id M) (ha_mul CI (fresh_id M) mt)
                    (insert_after_l ci (ha_cast ci (fresh_id M)) xs))
                  (ha_M1 M (site_name (fname F) var l))
           else map_bodies (insert_after_l ci (ha_cast ci (fresh_id M)))
                  (ha_M1 M (site_name (fname F) var l)))"
    and gv: "get_verifier_make_nondet M3 (st\<lparr>alloc_call_identifier := alloc_call_identifier st + 1\<rparr>)
       = Inr (M4, st', f)"
    and M': "M' = map_bodies (insert_after_l (fresh_id M)
            (ha_call (fresh_id M)
               (if callee = ''calloc'' then VInst (fresh_id M + 1) else operands CI ! 0)
               (length (globals M)) (unat (alloc_call_identifier st + 1)) f)) M4"
    by (rule handleAlloc_unfold)
  define news where "news = ha_news CI ci n callee mt (length (globals M))
                       (unat (alloc_call_identifier st + 1)) f"
  define g3 where "g3 = (if callee = ''calloc''
           then (\<lambda>xs. insert_before_l n (ha_mul CI n mt) (insert_after_l ci (ha_cast ci n) xs))
           else insert_after_l ci (ha_cast ci n))"
  define g4 where "g4 = insert_after_l n
            (ha_call n (if callee = ''calloc'' then VInst (n + 1) else operands CI ! 0)
               (length (globals M)) (unat (alloc_call_identifier st + 1)) f)"
  have M3g: "M3 = map_bodies g3 (ha_M1 M (site_name (fname F) var l))"
    unfolding M3 g3_def n_def by (cases "callee = ''calloc''") simp_all
  have M'g: "M' = map_bodies g4 M4" unfolding M' g4_def n_def ..
  note gvf = get_verifier_make_nondet_Inr [OF gv]
  from get_inst_SomeD [OF gi] have CI: "CI \<in> set (all_insts M)" "iid CI = ci" by simp_all
  from gvf(7) obtain extra where
    ex: "funcs M4 = funcs M3 @ extra" "extra = [] \<or> (\<exists>t. extra = [klee_decl t])"
      "extra \<noteq> [] \<longleftrightarrow> vms st = None \<and> ''klee_make_nondet'' \<notin> fname ` set (funcs M)"
    unfolding M3g by auto
  have body: "g4 (g3 (body G)) = concat (map (ha_expand ci news) (body G))"
    if "G \<in> set (funcs M)" for G
  proof -
    have d: "distinct (map iid (body G))" by (rule wf_body(1) [OF wf that])
    have b: "\<forall>x \<in> set (body G). iid x < n" unfolding n_def by (rule wf_body(2) [OF wf that])
    show ?thesis
    proof (cases "callee = ''calloc''")
      case True
      have "insert_after_l n (ha_call n (VInst (n + 1)) (length (globals M))
               (unat (alloc_call_identifier st + 1)) f)
             (insert_before_l n (ha_mul CI n mt) (insert_after_l ci (ha_cast ci n) (body G))) =
            concat (map (ha_expand ci [ha_mul CI n mt, ha_cast ci n,
               ha_call n (VInst (n + 1)) (length (globals M))
               (unat (alloc_call_identifier st + 1)) f]) (body G))"
        by (rule ha_body_calloc [OF d b]) (simp_all add: ha_cast_def ha_mul_def ha_call_def)
      with True show ?thesis by (simp add: g3_def g4_def news_def ha_news_def)
    next
      case False
      have "insert_after_l n (ha_call n (operands CI ! 0) (length (globals M))
               (unat (alloc_call_identifier st + 1)) f)
             (insert_after_l ci (ha_cast ci n) (body G)) =
            concat (map (ha_expand ci [ha_cast ci n,
               ha_call n (operands CI ! 0) (length (globals M))
               (unat (alloc_call_identifier st + 1)) f]) (body G))"
        by (rule ha_body_malloc [OF d b]) (simp_all add: ha_cast_def ha_call_def)
      with False show ?thesis by (simp add: g3_def g4_def news_def ha_news_def)
    qed
  qed
  have g3nil: "g3 [] = []" by (simp add: g3_def)
  have g4nil: "g4 [] = []" by (simp add: g4_def)
  have e1: "map (\<lambda>G. G\<lparr>body := g4 (body G)\<rparr>) (map (\<lambda>G. G\<lparr>body := g3 (body G)\<rparr>) (funcs M)) =
            map (body_map (ha_expand ci news)) (funcs M)"
  proof -
    have "map (\<lambda>G. G\<lparr>body := g4 (body G)\<rparr>) (map (\<lambda>G. G\<lparr>body := g3 (body G)\<rparr>) (funcs M)) =
          map (\<lambda>G. G\<lparr>body := g4 (g3 (body G))\<rparr>) (funcs M)"
      by simp
    also have "\<dots> = map (body_map (ha_expand ci news)) (funcs M)"
      by (rule map_cong [OF refl]) (simp add: body_map_def body)
    finally show ?thesis .
  qed
  have e2: "map (\<lambda>G. G\<lparr>body := g4 (body G)\<rparr>) extra = map (body_map (ha_expand ci news)) extra"
    using ex(2) by (auto simp: klee_decl_def body_map_def g4nil)
  have fm: "funcs M' = map (body_map (ha_expand ci news)) (funcs M @ extra)"
    by (simp only: M'g funcs_map_bodies ex(1) M3g map_append ha_M1_fields e1 e2)
  have gl: "globals M' = globals M @
             [\<lparr>gty = ArrayTy (Suc (length (site_name (fname F) var l))) (IntTy 8),
               gconstant = True, ginit = site_name (fname F) var l\<rparr>]"
    and pb: "pointer_bits M' = pointer_bits M" "type_alloc_size M' = type_alloc_size M"
    using gvf(4-6) unfolding M'g M3g by simp_all
  from gvf(2,3) have f: "vms st = None \<longrightarrow> f = ''klee_make_nondet''" "\<forall>g. vms st = Some g \<longrightarrow> f = g"
    by auto
  from gvf(8-13) have stf: "calls_to_replace st' = calls_to_replace st"
    "allocs_to_handle st' = allocs_to_handle st" "lines_nums st' = lines_nums st"
    "lines st' = lines st" "call_identifier st' = call_identifier st"
    "alloc_call_identifier st' = alloc_call_identifier st + 1"
    by simp_all
  show thesis
    by (rule that [OF CI gp pt cf len' gvf(1) f news_def [unfolded n_def] fm ex(2,3) gl pb stf])
qed

lemma expand_ids:
  fixes js :: "nat list"
  assumes "distinct js" "\<forall>j \<in> set js. j < n" "distinct N" "\<forall>m \<in> set N. n \<le> m"
    and that: "\<And>j. pre j = [] \<or> pre j = [j]"
  shows "distinct (concat (map (\<lambda>j. if j = ci then pre j @ N else [j]) js)) \<and>
         set (concat (map (\<lambda>j. if j = ci then pre j @ N else [j]) js)) \<subseteq> set js \<union> set N"
  using assms(1,2)
proof (induction js)
  case Nil
  then show ?case by simp
next
  case (Cons j js)
  then have ih: "distinct (concat (map (\<lambda>j. if j = ci then pre j @ N else [j]) js))"
    "set (concat (map (\<lambda>j. if j = ci then pre j @ N else [j]) js)) \<subseteq> set js \<union> set N"
    by simp_all
  from Cons.prems have j: "j \<notin> set js" "j < n" "j \<notin> set N"
    using assms(4) by auto
  have dj: "\<And>x. x \<in> set N \<Longrightarrow> x \<notin> set js"
  proof
    fix x assume "x \<in> set N" "x \<in> set js"
    with assms(4) Cons.prems(2) have "n \<le> x" "x < n" by auto
    then show False by simp
  qed
  show ?case
  proof (cases "j = ci")
    case True
    with j(1) have "concat (map (\<lambda>j. if j = ci then pre j @ N else [j]) js) = js"
      by (induction js) auto
    with True j Cons.prems assms(3) dj that [of j] show ?thesis by auto
  next
    case False
    with ih j dj show ?thesis by auto
  qed
qed

lemma rc_expand_map_iid:
  "map iid (concat (map (rc_expand ci news v) xs)) =
   concat (map (\<lambda>j. if j = ci then [] @ map iid news else [j]) (map iid xs))"
  by (induction xs) (simp_all add: rc_expand_def)

lemma ha_expand_map_iid:
  "map iid (concat (map (ha_expand ci news) xs)) =
   concat (map (\<lambda>j. if j = ci then [j] @ map iid news else [j]) (map iid xs))"
  by (induction xs) (simp_all add: ha_expand_def)

lemma rc_expand_set:
  "ci \<in> iid ` set xs \<Longrightarrow>
   set (concat (map (rc_expand ci news v) xs)) =
     subst_inst ci v ` {i \<in> set xs. iid i \<noteq> ci} \<union> set news"
  by (induction xs) (auto simp: rc_expand_def)

lemma ha_expand_set:
  "ci \<in> iid ` set xs \<Longrightarrow>
   set (concat (map (ha_expand ci news) xs)) = set xs \<union> set news"
  by (induction xs) (auto simp: ha_expand_def)

lemma rc_new_ids: "map iid (rc_new CI n szt sz g k f name) = [n, n + 1, n + 2, n + 3]"
  by (simp add: rc_new_def)

lemma ha_news_ids:
  "map iid (ha_news CI ci n callee mt g k f) =
     (if callee = ''calloc'' then [n + 1, n, n + 2] else [n, n + 2])"
  by (simp add: ha_news_def ha_mul_def ha_cast_def ha_call_def)

lemma all_insts_append_klee:
  "extra = [] \<or> (\<exists>t. extra = [klee_decl t]) \<Longrightarrow> concat (map body (Fs @ extra)) = concat (map body Fs)"
  by (elim disjE exE) (simp_all add: klee_decl_def)

lemma replaceCall_sem:
  assumes rc: "replaceCall M st ci l var = Inr (M', st')" and wf: "wf_module M"
  obtains CI news where
    "CI \<in> set (all_insts M)" "iid CI = ci"
    "map iid news = [fresh_id M, fresh_id M + 1, fresh_id M + 2, fresh_id M + 3]"
    "all_insts M' = concat (map (rc_expand ci news (VInst (fresh_id M + 3))) (all_insts M))"
    "set (all_insts M') =
       subst_inst ci (VInst (fresh_id M + 3)) ` {i \<in> set (all_insts M). iid i \<noteq> ci} \<union> set news"
    "wf_module M'" "fresh_id M + 3 < fresh_id M'"
proof (rule replaceCall_step [OF rc wf])
  fix CI F szt f extra news
  assume CI: "CI \<in> set (all_insts M)" "iid CI = ci"
    and news: "news = rc_new CI (fresh_id M) szt (type_alloc_size M (ity CI)) (length (globals M))
              (unat (call_identifier st + 1)) f (site_name (fname F) var l)"
    and fm: "funcs M' = map (body_map (rc_expand ci news (VInst (fresh_id M + 3)))) (funcs M @ extra)"
    and ex: "extra = [] \<or> (\<exists>t. extra = [klee_decl t])"
  have ids: "map iid news = [fresh_id M, fresh_id M + 1, fresh_id M + 2, fresh_id M + 3]"
    unfolding news by (rule rc_new_ids)
  have ai: "all_insts M' = concat (map (rc_expand ci news (VInst (fresh_id M + 3))) (all_insts M))"
    using fm by (rule all_insts_body_map) (simp only: all_insts_append_klee [OF ex] all_insts_def)
  from CI have cin: "ci \<in> iid ` set (all_insts M)" by auto
  have st: "set (all_insts M') =
       subst_inst ci (VInst (fresh_id M + 3)) ` {i \<in> set (all_insts M). iid i \<noteq> ci} \<union> set news"
    unfolding ai by (rule rc_expand_set [OF cin])
  have lt: "\<forall>j \<in> set (map iid (all_insts M)). j < fresh_id M"
    by (auto intro: fresh_id_gt)
  have "distinct (map iid (all_insts M'))"
    unfolding ai rc_expand_map_iid ids
    using expand_ids [OF wf [unfolded wf_module_def] lt, of "[fresh_id M, fresh_id M + 1, fresh_id M + 2, fresh_id M + 3]" "\<lambda>j. []" ci]
    by simp
  then have wf': "wf_module M'" by (simp add: wf_module_def)
  have "\<exists>i \<in> set (all_insts M'). iid i = fresh_id M + 3"
  proof -
    from ids have "fresh_id M + 3 \<in> set (map iid news)" by simp
    then obtain i where "i \<in> set news" "iid i = fresh_id M + 3" by auto
    with st show ?thesis by auto
  qed
  then have fr: "fresh_id M + 3 < fresh_id M'" by (auto dest: fresh_id_gt)
  show thesis by (rule that [OF CI ids ai st wf' fr])
qed

lemma handleAlloc_sem:
  assumes ha: "handleAlloc M st ci l var = Inr (M', st')" and wf: "wf_module M"
  obtains CI news where
    "CI \<in> set (all_insts M)" "iid CI = ci"
    "set (map iid news) \<subseteq> {fresh_id M, fresh_id M + 1, fresh_id M + 2}"
    "all_insts M' = concat (map (ha_expand ci news) (all_insts M))"
    "set (all_insts M') = set (all_insts M) \<union> set news"
    "wf_module M'" "fresh_id M < fresh_id M'"
proof (rule handleAlloc_step [OF ha wf])
  fix CI F t callee f extra mt news
  assume CI: "CI \<in> set (all_insts M)" "iid CI = ci"
    and news: "news = ha_news CI ci (fresh_id M) callee mt (length (globals M))
              (unat (alloc_call_identifier st + 1)) f"
    and fm: "funcs M' = map (body_map (ha_expand ci news)) (funcs M @ extra)"
    and ex: "extra = [] \<or> (\<exists>t. extra = [klee_decl t])"
  have ids: "map iid news =
     (if callee = ''calloc'' then [fresh_id M + 1, fresh_id M, fresh_id M + 2]
      else [fresh_id M, fresh_id M + 2])"
    unfolding news by (rule ha_news_ids)
  then have sub: "set (map iid news) \<subseteq> {fresh_id M, fresh_id M + 1, fresh_id M + 2}"
    by (simp split: if_splits)
  have ai: "all_insts M' = concat (map (ha_expand ci news) (all_insts M))"
    using fm by (rule all_insts_body_map) (simp only: all_insts_append_klee [OF ex] all_insts_def)
  from CI have cin: "ci \<in> iid ` set (all_insts M)" by auto
  have st: "set (all_insts M') = set (all_insts M) \<union> set news"
    unfolding ai by (rule ha_expand_set [OF cin])
  have lt: "\<forall>j \<in> set (map iid (all_insts M)). j < fresh_id M"
    by (auto intro: fresh_id_gt)
  have dn: "distinct (map iid news)" "\<forall>m \<in> set (map iid news). fresh_id M \<le> m"
    unfolding ids by (simp_all split: if_splits)
  have "distinct (map iid (all_insts M'))"
    unfolding ai ha_expand_map_iid
    using expand_ids [OF wf [unfolded wf_module_def] lt dn, of "\<lambda>j. [j]" ci]
    by simp
  then have wf': "wf_module M'" by (simp add: wf_module_def)
  have "\<exists>i \<in> set (all_insts M'). iid i = fresh_id M"
  proof -
    from ids have "fresh_id M \<in> set (map iid news)" by (simp split: if_splits)
    then obtain i where "i \<in> set news" "iid i = fresh_id M" by auto
    with st show ?thesis by auto
  qed
  then have fr: "fresh_id M < fresh_id M'" by (auto dest: fresh_id_gt)
  show thesis by (rule that [OF CI sub ai st wf' fr])
qed

definition redirected :: "nat set \<Rightarrow> inst \<Rightarrow> inst \<Rightarrow> bool" where
  "redirected S i i' \<longleftrightarrow>
     (\<exists>ops. i' = i\<lparr>operands := ops\<rparr> \<and> length ops = length (operands i) \<and>
            (\<forall>k < length ops. operands i ! k \<notin> VInst ` S \<longrightarrow> ops ! k = operands i ! k))"

lemma redirected_refl: "redirected S i i"
  unfolding redirected_def by (rule exI [of _ "operands i"]) simp

lemma redirected_subst: "c \<in> S \<Longrightarrow> redirected S i (subst_inst c v i)"
  unfolding redirected_def subst_inst_def
  by (rule exI [of _ "map (subst_val c v) (operands i)"]) (auto simp: subst_val_def)

lemma redirected_fields:
  assumes "redirected S i i'"
  shows "iid i' = iid i" "iop i' = iop i" "ity i' = ity i" "iname i' = iname i"
    "dbg_line i' = dbg_line i" "length (operands i') = length (operands i)"
    "k < length (operands i) \<Longrightarrow> operands i ! k \<notin> VInst ` S \<Longrightarrow> operands i' ! k = operands i ! k"
  using assms unfolding redirected_def by auto

lemma redirected_mono: "S \<subseteq> T \<Longrightarrow> redirected S i i' \<Longrightarrow> redirected T i i'"
  unfolding redirected_def by blast

lemma redirected_trans:
  assumes "redirected S i i'" "redirected S i' i''"
  shows "redirected S i i''"
proof -
  from assms(1) obtain ops where 1: "i' = i\<lparr>operands := ops\<rparr>" "length ops = length (operands i)"
    "\<forall>k < length ops. operands i ! k \<notin> VInst ` S \<longrightarrow> ops ! k = operands i ! k"
    unfolding redirected_def by blast
  from assms(2) obtain ops' where 2: "i'' = i'\<lparr>operands := ops'\<rparr>" "length ops' = length (operands i')"
    "\<forall>k < length ops'. operands i' ! k \<notin> VInst ` S \<longrightarrow> ops' ! k = operands i' ! k"
    unfolding redirected_def by blast
  show ?thesis
    unfolding redirected_def
  proof (intro exI [of _ ops'] conjI allI impI)
    show "i'' = i\<lparr>operands := ops'\<rparr>" using 1(1) 2(1) by simp
    show "length ops' = length (operands i)" using 1 2 by simp
    fix k assume k: "k < length ops'" "operands i ! k \<notin> VInst ` S"
    with 1 2 have "ops ! k = operands i ! k" by simp
    with k 1 2 show "ops' ! k = operands i ! k" by simp
  qed
qed

lemma replaceCalls_loop_Cons:
  assumes "replaceCalls_loop M st ((l, c) # rest) = Inr (M', st')"
  obtains M1 st1 where
    "replaceCall M st c l (case map_of (lines st) l of None \<Rightarrow> [] | Some t \<Rightarrow> getName t)
       = Inr (M1, st1)"
    "replaceCalls_loop M1 st1 rest = Inr (M', st')"
  using assms
  by (cases "replaceCall M st c l (case map_of (lines st) l of None \<Rightarrow> [] | Some t \<Rightarrow> getName t)")
    auto

lemma handleAllocs_loop_Cons:
  assumes "handleAllocs_loop M st ((l, c) # rest) = Inr (M', st')"
  obtains M1 st1 where
    "handleAlloc M st c l ''dynalloc'' = Inr (M1, st1)"
    "handleAllocs_loop M1 st1 rest = Inr (M', st')"
  using assms by (cases "handleAlloc M st c l ''dynalloc''") auto

lemma replaceCalls_loop_sem:
  assumes "replaceCalls_loop M st xs = Inr (M', st')" "wf_module M"
    "\<forall>c \<in> snd ` set xs. c < fresh_id M"
  shows "wf_module M' \<and> fresh_id M \<le> fresh_id M' \<and>
         snd ` set xs \<subseteq> iid ` set (all_insts M) \<and> distinct (map snd xs) \<and>
         (\<forall>i' \<in> set (all_insts M'). iid i' < fresh_id M \<longrightarrow>
            (\<exists>i \<in> set (all_insts M). iid i \<notin> snd ` set xs \<and> redirected (snd ` set xs) i i')) \<and>
         (\<forall>i \<in> set (all_insts M). iid i \<notin> snd ` set xs \<longrightarrow>
            (\<exists>i' \<in> set (all_insts M'). redirected (snd ` set xs) i i'))"
  using assms
proof (induction xs arbitrary: M st)
  case Nil
  then show ?case by (auto intro: redirected_refl)
next
  case (Cons x rest)
  obtain l c where x: "x = (l, c)" by (cases x)
  from Cons.prems(1) [unfolded x] obtain M1 st1 where
    rc: "replaceCall M st c l (case map_of (lines st) l of None \<Rightarrow> [] | Some t \<Rightarrow> getName t)
       = Inr (M1, st1)"
    and lp: "replaceCalls_loop M1 st1 rest = Inr (M', st')"
    by (rule replaceCalls_loop_Cons)
  from rc Cons.prems(2) obtain CI news where
    CI: "CI \<in> set (all_insts M)" "iid CI = c"
    and ids: "map iid news = [fresh_id M, fresh_id M + 1, fresh_id M + 2, fresh_id M + 3]"
    and st: "set (all_insts M1) =
       subst_inst c (VInst (fresh_id M + 3)) ` {i \<in> set (all_insts M). iid i \<noteq> c} \<union> set news"
    and wf1: "wf_module M1" and fr: "fresh_id M + 3 < fresh_id M1"
    by (rule replaceCall_sem)
  define S where "S = snd ` set rest"
  have newid: "fresh_id M \<le> iid i" if "i \<in> set news" for i
  proof -
    from that have "iid i \<in> set (map iid news)" by simp
    then show ?thesis unfolding ids by auto
  qed
  have bound: "\<forall>c \<in> snd ` set rest. c < fresh_id M1"
    using Cons.prems(3) fr by auto
  note ih = Cons.IH [OF lp wf1 bound, folded S_def]
  from ih have wf': "wf_module M'" and fr': "fresh_id M1 \<le> fresh_id M'"
    and sub1: "S \<subseteq> iid ` set (all_insts M1)" and d1: "distinct (map snd rest)"
    and bk: "\<forall>i' \<in> set (all_insts M'). iid i' < fresh_id M1 \<longrightarrow>
            (\<exists>i \<in> set (all_insts M1). iid i \<notin> S \<and> redirected S i i')"
    and fw: "\<forall>i \<in> set (all_insts M1). iid i \<notin> S \<longrightarrow>
            (\<exists>i' \<in> set (all_insts M'). redirected S i i')"
    by simp_all
  have Sx: "snd ` set (x # rest) = insert c S" by (simp add: x S_def)
  have Slt: "\<forall>s \<in> S. s < fresh_id M" using Cons.prems(3) by (simp add: S_def)
  \<comment> \<open>the old instructions of \<open>M1\<close> are the substituted instructions of \<open>M\<close>\<close>
  have old1: "\<exists>i \<in> set (all_insts M). iid i \<noteq> c \<and> i1 = subst_inst c (VInst (fresh_id M + 3)) i"
    if "i1 \<in> set (all_insts M1)" "iid i1 < fresh_id M" for i1
    using that st newid by fastforce
  have cS: "c \<notin> S"
  proof
    assume "c \<in> S"
    with sub1 obtain i1 where i1: "i1 \<in> set (all_insts M1)" "iid i1 = c" by auto
    with CI fresh_id_gt [OF CI(1)] have "iid i1 < fresh_id M" by simp
    from old1 [OF i1(1) this] obtain i where "iid i \<noteq> c"
      "i1 = subst_inst c (VInst (fresh_id M + 3)) i" by blast
    then have "iid i1 \<noteq> c" by simp
    with i1(2) show False by simp
  qed
  have subM: "insert c S \<subseteq> iid ` set (all_insts M)"
  proof -
    have "s \<in> iid ` set (all_insts M)" if "s \<in> S" for s
    proof -
      from that sub1 obtain i1 where i1: "i1 \<in> set (all_insts M1)" "iid i1 = s" by auto
      with Slt that have "iid i1 < fresh_id M" by simp
      from old1 [OF i1(1) this] obtain i where i: "i \<in> set (all_insts M)"
        "i1 = subst_inst c (VInst (fresh_id M + 3)) i" by blast
      then have "iid i = s" using i1(2) by simp
      with i(1) show ?thesis by auto
    qed
    with CI show ?thesis by auto
  qed
  have dist: "distinct (map snd (x # rest))"
    using d1 cS by (simp add: x S_def)
  have B: "\<exists>i \<in> set (all_insts M). iid i \<notin> insert c S \<and> redirected (insert c S) i i'"
    if "i' \<in> set (all_insts M')" "iid i' < fresh_id M" for i'
  proof -
    from that fr have "iid i' < fresh_id M1" by simp
    with bk that(1) obtain i1 where i1: "i1 \<in> set (all_insts M1)" "iid i1 \<notin> S" "redirected S i1 i'"
      by blast
    from redirected_fields(1) [OF i1(3)] that(2) have "iid i1 < fresh_id M" by simp
    from old1 [OF i1(1) this] obtain i where i: "i \<in> set (all_insts M)" "iid i \<noteq> c"
      "i1 = subst_inst c (VInst (fresh_id M + 3)) i" by blast
    have "redirected (insert c S) i i1" unfolding i(3) by (rule redirected_subst) simp
    moreover have "redirected (insert c S) i1 i'"
      using i1(3) by (rule redirected_mono [rotated]) auto
    ultimately have "redirected (insert c S) i i'" by (rule redirected_trans)
    moreover from i i1(2) have "iid i \<notin> insert c S" by simp
    ultimately show ?thesis using i(1) by blast
  qed
  have F: "\<exists>i' \<in> set (all_insts M'). redirected (insert c S) i i'"
    if "i \<in> set (all_insts M)" "iid i \<notin> insert c S" for i
  proof -
    let ?i1 = "subst_inst c (VInst (fresh_id M + 3)) i"
    from that st have "?i1 \<in> set (all_insts M1)" by auto
    moreover from that have "iid ?i1 \<notin> S" by simp
    ultimately obtain i' where i': "i' \<in> set (all_insts M')" "redirected S ?i1 i'"
      using fw by blast
    have "redirected (insert c S) i ?i1" by (rule redirected_subst) simp
    moreover have "redirected (insert c S) ?i1 i'"
      using i'(2) by (rule redirected_mono [rotated]) auto
    ultimately have "redirected (insert c S) i i'" by (rule redirected_trans)
    with i'(1) show ?thesis by blast
  qed
  from fr fr' have "fresh_id M \<le> fresh_id M'" by simp
  with wf' subM dist B F show ?case unfolding Sx by blast
qed

lemma handleAllocs_loop_sem:
  assumes "handleAllocs_loop M st xs = Inr (M', st')" "wf_module M"
  shows "wf_module M' \<and> fresh_id M \<le> fresh_id M' \<and>
         set (all_insts M) \<subseteq> set (all_insts M') \<and>
         (\<forall>i' \<in> set (all_insts M'). iid i' < fresh_id M \<longrightarrow> i' \<in> set (all_insts M))"
  using assms
proof (induction xs arbitrary: M st)
  case Nil
  then show ?case by auto
next
  case (Cons x rest)
  obtain l c where x: "x = (l, c)" by (cases x)
  from Cons.prems(1) [unfolded x] obtain M1 st1 where
    ha: "handleAlloc M st c l ''dynalloc'' = Inr (M1, st1)"
    and lp: "handleAllocs_loop M1 st1 rest = Inr (M', st')"
    by (rule handleAllocs_loop_Cons)
  from ha Cons.prems(2) obtain CI news where
    CI: "CI \<in> set (all_insts M)" "iid CI = c"
    and ids: "set (map iid news) \<subseteq> {fresh_id M, fresh_id M + 1, fresh_id M + 2}"
    and st: "set (all_insts M1) = set (all_insts M) \<union> set news"
    and wf1: "wf_module M1" and fr: "fresh_id M < fresh_id M1"
    by (rule handleAlloc_sem)
  have newid: "fresh_id M \<le> iid i" if "i \<in> set news" for i
  proof -
    from that have "iid i \<in> set (map iid news)" by simp
    with ids show ?thesis by auto
  qed
  note ih = Cons.IH [OF lp wf1]
  from ih have wf': "wf_module M'" and fr': "fresh_id M1 \<le> fresh_id M'"
    and inc: "set (all_insts M1) \<subseteq> set (all_insts M')"
    and bk: "\<forall>i' \<in> set (all_insts M'). iid i' < fresh_id M1 \<longrightarrow> i' \<in> set (all_insts M1)"
    by simp_all
  have B: "i' \<in> set (all_insts M)" if "i' \<in> set (all_insts M')" "iid i' < fresh_id M" for i'
  proof -
    from that fr bk have "i' \<in> set (all_insts M1)" by auto
    with st newid that(2) show ?thesis by fastforce
  qed
  from fr fr' have "fresh_id M \<le> fresh_id M'" by simp
  moreover from st inc have "set (all_insts M) \<subseteq> set (all_insts M')" by auto
  ultimately show ?case using wf' B by blast
qed

lemma fold_invariant:
  assumes "\<And>x s. x \<in> set xs \<Longrightarrow> P s \<Longrightarrow> P (f x s)" "P s"
  shows "P (fold f xs s)"
  using assms by (induction xs arbitrary: s) auto

definition collected_ok :: "32 word \<Rightarrow> module \<Rightarrow> pass_state \<Rightarrow> bool" where
  "collected_ok a M st \<longleftrightarrow>
     snd ` set (calls_to_replace st) \<subseteq> iid ` set (all_insts M) \<and>
     snd ` set (allocs_to_handle st) \<subseteq> iid ` set (all_insts M) \<and>
     vms st = None \<and> call_identifier st = 0 \<and> alloc_call_identifier st = a \<and> lines st = [] \<and>
     set (lines_nums st) \<subseteq> fst ` set (calls_to_replace st) \<union> fst ` set (allocs_to_handle st)"

lemma handleCall_ok:
  "CI \<in> set (all_insts M) \<Longrightarrow> collected_ok a M st \<Longrightarrow> collected_ok a M (handleCall st F CI b)"
  by (auto simp: collected_ok_def handleCall_def split: option.splits)

lemma uses_of_subset: "set (uses_of M name) \<subseteq> set (all_insts M)"
  by (auto simp: uses_of_def)

lemma runOnFunction_ok: "collected_ok a M st \<Longrightarrow> collected_ok a M (runOnFunction M st F)"
proof -
  assume ok: "collected_ok a M st"
  have "collected_ok a M (fold (\<lambda>use s. if iop use = Call
                          then handleCall s F use (\<not> prefix ''__VERIFIER'' (fname F))
                          else s) (uses_of M (fname F)) st)"
  proof (rule fold_invariant [where P = "collected_ok a M"])
    fix x s assume "x \<in> set (uses_of M (fname F))" "collected_ok a M s"
    with uses_of_subset [of M "fname F"]
    show "collected_ok a M (if iop x = Call
                          then handleCall s F x (\<not> prefix ''__VERIFIER'' (fname F)) else s)"
      by (auto intro: handleCall_ok)
  qed (rule ok)
  with ok show ?thesis by (simp add: runOnFunction_def)
qed

lemma collect_ok: "collected_ok (static_identifier e) M (collect e M)"
  unfolding collect_def
proof (rule fold_invariant [where P = "collected_ok (static_identifier e) M"])
  show "collected_ok (static_identifier e) M (init_state (static_identifier e))"
    by (simp add: collected_ok_def init_state_def)
qed (rule runOnFunction_ok)

lemma mapLines_Inr:
  assumes "mapLines e st = Inr st1"
  shows "calls_to_replace st1 = calls_to_replace st" "allocs_to_handle st1 = allocs_to_handle st"
    "vms st1 = vms st" "call_identifier st1 = call_identifier st"
    "alloc_call_identifier st1 = alloc_call_identifier st" "lines_nums st1 = lines_nums st"
  using assms by (auto simp: mapLines_def Let_def split: if_splits option.splits)

lemma runOnModule_Inr:
  assumes "runOnModule e M = Inr (M', st', b)"
  obtains st1 M1 st2 where
    "mapLines e (collect e M) = Inr st1"
    "replaceCalls_loop M st1 (calls_to_replace st1) = Inr (M1, st2)"
    "handleAllocs_loop M1 st2 (allocs_to_handle st2) = Inr (M', st')"
proof -
  from assms obtain st1 where 1: "mapLines e (collect e M) = Inr st1"
    by (cases "mapLines e (collect e M)") (auto simp: runOnModule_def)
  with assms obtain M1 st2 where 2: "replaceCalls M st1 = Inr (M1, st2)"
    by (cases "replaceCalls M st1") (auto simp: runOnModule_def)
  with 1 assms have 3: "handleAllocs M1 st2 = Inr (M', st')"
    by (cases "handleAllocs M1 st2") (auto simp: runOnModule_def)
  from 1 2 3 show thesis
    by (intro that [of st1 M1 st2]) (simp_all add: replaceCalls_def handleAllocs_def)
qed

lemma replaceCalls_loop_state:
  assumes "replaceCalls_loop M st xs = Inr (M', st')" "wf_module M"
  shows "calls_to_replace st' = calls_to_replace st \<and> allocs_to_handle st' = allocs_to_handle st \<and>
         lines st' = lines st \<and> lines_nums st' = lines_nums st \<and>
         call_identifier st' = call_identifier st + of_nat (length xs) \<and>
         alloc_call_identifier st' = alloc_call_identifier st \<and>
         length (globals M') = length (globals M) + length xs \<and>
         (xs \<noteq> [] \<longrightarrow> vms st' \<noteq> None) \<and> (xs = [] \<longrightarrow> vms st' = vms st)"
  using assms
proof (induction xs arbitrary: M st)
  case Nil
  then show ?case by simp
next
  case (Cons x rest)
  obtain l c where x: "x = (l, c)" by (cases x)
  from Cons.prems(1) [unfolded x] obtain M1 st1 where
    rc: "replaceCall M st c l (case map_of (lines st) l of None \<Rightarrow> [] | Some t \<Rightarrow> getName t)
       = Inr (M1, st1)"
    and lp: "replaceCalls_loop M1 st1 rest = Inr (M', st')"
    by (rule replaceCalls_loop_Cons)
  from rc Cons.prems(2) obtain CI news where wf1: "wf_module M1"
    by (rule replaceCall_sem)
  note ih = Cons.IH [OF lp wf1]
  show ?case
  proof (rule replaceCall_step [OF rc Cons.prems(2)])
    fix CI F szt f extra news
    assume "vms st1 = Some f"
      and "globals M1 = globals M @
       [\<lparr>gty = ArrayTy (Suc (length (site_name (fname F)
            (case map_of (lines st) l of None \<Rightarrow> [] | Some t \<Rightarrow> getName t) l))) (IntTy 8),
         gconstant = True, ginit = site_name (fname F)
            (case map_of (lines st) l of None \<Rightarrow> [] | Some t \<Rightarrow> getName t) l\<rparr>]"
      and "calls_to_replace st1 = calls_to_replace st" "allocs_to_handle st1 = allocs_to_handle st"
      and "lines_nums st1 = lines_nums st" "lines st1 = lines st"
      and "call_identifier st1 = call_identifier st + 1"
      and "alloc_call_identifier st1 = alloc_call_identifier st"
    with ih show ?thesis by (cases "rest = []") (simp_all add: x)
  qed
qed

definition parent_name :: "module \<Rightarrow> nat \<Rightarrow> string option" where
  "parent_name M j = map_option fname (get_parent M j)"

lemma find_map_cong:
  "(\<And>x. x \<in> set xs \<Longrightarrow> Q (g x) = P x) \<Longrightarrow> find Q (map g xs) = map_option g (find P xs)"
  by (induction xs) auto

lemma find_append_not: "(\<And>x. x \<in> set ys \<Longrightarrow> \<not> P x) \<Longrightarrow> find P (xs @ ys) = find P xs"
  by (induction xs) (auto simp: find_None_iff)

lemma parent_name_body_map:
  assumes fm: "funcs M' = map (body_map h) (funcs M @ extra)"
    and ex: "extra = [] \<or> (\<exists>t. extra = [klee_decl t])"
    and h: "\<And>xs. j \<in> set (map iid (concat (map h xs))) \<longleftrightarrow> j \<in> set (map iid xs)"
  shows "parent_name M' j = parent_name M j"
proof -
  have "find (\<lambda>f. j \<in> set (map iid (body f))) (map (body_map h) (funcs M @ extra)) =
        map_option (body_map h) (find (\<lambda>f. j \<in> set (map iid (body f))) (funcs M @ extra))"
    by (rule find_map_cong) (simp only: body_map_body h)
  moreover have "find (\<lambda>f. j \<in> set (map iid (body f))) (funcs M @ extra) =
                 find (\<lambda>f. j \<in> set (map iid (body f))) (funcs M)"
    using ex by (intro find_append_not) (auto simp: klee_decl_def)
  ultimately show ?thesis
    by (simp add: parent_name_def get_parent_def fm option.map_comp comp_def)
qed

lemma expand_mem:
  fixes js :: "nat list"
  shows "j \<notin> set N \<Longrightarrow> (pre ci = [] \<and> j \<noteq> ci) \<or> pre ci = [ci] \<Longrightarrow>
    j \<in> set (concat (map (\<lambda>j'. if j' = ci then pre j' @ N else [j']) js)) \<longleftrightarrow> j \<in> set js"
  by (induction js) auto

lemma rc_expand_mem:
  "j \<noteq> ci \<Longrightarrow> j \<notin> set (map iid news) \<Longrightarrow>
   j \<in> set (map iid (concat (map (rc_expand ci news v) xs))) \<longleftrightarrow> j \<in> set (map iid xs)"
  unfolding rc_expand_map_iid by (rule expand_mem) simp_all

lemma ha_expand_mem:
  "j \<notin> set (map iid news) \<Longrightarrow>
   j \<in> set (map iid (concat (map (ha_expand ci news) xs))) \<longleftrightarrow> j \<in> set (map iid xs)"
  unfolding ha_expand_map_iid by (rule expand_mem) simp_all

lemma replaceCall_parent:
  assumes rc: "replaceCall M st ci l var = Inr (M', st')" and wf: "wf_module M"
    and j: "j \<noteq> ci" "j < fresh_id M"
  shows "parent_name M' j = parent_name M j"
proof (rule replaceCall_step [OF rc wf])
  fix CI F szt f extra news
  assume news: "news = rc_new CI (fresh_id M) szt (type_alloc_size M (ity CI)) (length (globals M))
              (unat (call_identifier st + 1)) f (site_name (fname F) var l)"
    and fm: "funcs M' = map (body_map (rc_expand ci news (VInst (fresh_id M + 3)))) (funcs M @ extra)"
    and ex: "extra = [] \<or> (\<exists>t. extra = [klee_decl t])"
  have "set (map iid news) = {fresh_id M, fresh_id M + 1, fresh_id M + 2, fresh_id M + 3}"
    unfolding news rc_new_ids by simp
  with j(2) have "j \<notin> set (map iid news)" by auto
  with j(1) show ?thesis
    by (intro parent_name_body_map [OF fm ex] rc_expand_mem)
qed

lemma handleAlloc_parent:
  assumes ha: "handleAlloc M st ci l var = Inr (M', st')" and wf: "wf_module M"
    and j: "j < fresh_id M"
  shows "parent_name M' j = parent_name M j"
proof (rule handleAlloc_step [OF ha wf])
  fix CI F t callee f extra mt news
  assume news: "news = ha_news CI ci (fresh_id M) callee mt (length (globals M))
              (unat (alloc_call_identifier st + 1)) f"
    and fm: "funcs M' = map (body_map (ha_expand ci news)) (funcs M @ extra)"
    and ex: "extra = [] \<or> (\<exists>t. extra = [klee_decl t])"
  have "set (map iid news) \<subseteq> {fresh_id M, fresh_id M + 1, fresh_id M + 2}"
    unfolding news ha_news_ids by simp
  with j have "j \<notin> set (map iid news)" by auto
  then show ?thesis
    by (intro parent_name_body_map [OF fm ex] ha_expand_mem)
qed

definition name_global :: "string \<Rightarrow> global_var" where
  "name_global name = \<lparr>gty = ArrayTy (Suc (length name)) (IntTy 8), gconstant = True, ginit = name\<rparr>"

definition line_var :: "pass_state \<Rightarrow> nat \<Rightarrow> string" where
  "line_var st l = (case map_of (lines st) l of None \<Rightarrow> [] | Some t \<Rightarrow> getName t)"

lemma replaceCalls_loop_globals:
  assumes "replaceCalls_loop M st xs = Inr (M', st')" "wf_module M"
    "\<forall>c \<in> snd ` set xs. c < fresh_id M"
  shows "globals M' = globals M @
           map (\<lambda>(l, c). name_global (site_name (the (parent_name M c)) (line_var st l) l)) xs"
  using assms
proof (induction xs arbitrary: M st)
  case Nil
  then show ?case by simp
next
  case (Cons x rest)
  obtain l c where x: "x = (l, c)" by (cases x)
  from Cons.prems(1) [unfolded x] obtain M1 st1 where
    rc: "replaceCall M st c l (line_var st l) = Inr (M1, st1)"
    and lp: "replaceCalls_loop M1 st1 rest = Inr (M', st')"
    unfolding line_var_def by (rule replaceCalls_loop_Cons)
  from rc Cons.prems(2) obtain CI news where wf1: "wf_module M1"
    and fr: "fresh_id M + 3 < fresh_id M1"
    by (rule replaceCall_sem)
  from replaceCalls_loop_sem [OF Cons.prems] have d: "c \<notin> snd ` set rest"
    by (simp add: x)
  have bound: "\<forall>c \<in> snd ` set rest. c < fresh_id M1"
    using Cons.prems(3) fr by auto
  note ih = Cons.IH [OF lp wf1 bound]
  show ?case
  proof (rule replaceCall_step [OF rc Cons.prems(2)])
    fix CI F szt f extra news
    assume gp: "get_parent M c = Some F"
      and gl: "globals M1 = globals M @
       [\<lparr>gty = ArrayTy (Suc (length (site_name (fname F) (line_var st l) l))) (IntTy 8),
         gconstant = True, ginit = site_name (fname F) (line_var st l) l\<rparr>]"
      and ln: "lines st1 = lines st"
    have pn: "parent_name M1 c' = parent_name M c'" if "c' \<in> snd ` set rest" for c'
    proof (rule replaceCall_parent [OF rc Cons.prems(2)])
      from that d show "c' \<noteq> c" by auto
      from that Cons.prems(3) show "c' < fresh_id M" by auto
    qed
    have "map (\<lambda>(l, c). name_global (site_name (the (parent_name M1 c)) (line_var st1 l) l)) rest =
          map (\<lambda>(l, c). name_global (site_name (the (parent_name M c)) (line_var st l) l)) rest"
    proof (rule map_cong [OF refl])
      fix y assume y: "y \<in> set rest"
      obtain l' c' where y': "y = (l', c')" by (cases y)
      with y have "c' \<in> snd ` set rest" by force
      from pn [OF this] show "(case y of (l, c) \<Rightarrow>
              name_global (site_name (the (parent_name M1 c)) (line_var st1 l) l)) =
             (case y of (l, c) \<Rightarrow>
              name_global (site_name (the (parent_name M c)) (line_var st l) l))"
        by (simp add: y' line_var_def ln)
    qed
    with ih gl gp show ?thesis
      by (simp add: x name_global_def parent_name_def)
  qed
qed

lemma handleAllocs_loop_globals:
  assumes "handleAllocs_loop M st xs = Inr (M', st')" "wf_module M"
    "\<forall>c \<in> snd ` set xs. c < fresh_id M"
  shows "globals M' = globals M @
           map (\<lambda>(l, c). name_global (site_name (the (parent_name M c)) ''dynalloc'' l)) xs"
  using assms
proof (induction xs arbitrary: M st)
  case Nil
  then show ?case by simp
next
  case (Cons x rest)
  obtain l c where x: "x = (l, c)" by (cases x)
  from Cons.prems(1) [unfolded x] obtain M1 st1 where
    ha: "handleAlloc M st c l ''dynalloc'' = Inr (M1, st1)"
    and lp: "handleAllocs_loop M1 st1 rest = Inr (M', st')"
    by (rule handleAllocs_loop_Cons)
  from ha Cons.prems(2) obtain CI news where wf1: "wf_module M1"
    and fr: "fresh_id M < fresh_id M1"
    by (rule handleAlloc_sem)
  have bound: "\<forall>c \<in> snd ` set rest. c < fresh_id M1"
    using Cons.prems(3) fr by auto
  note ih = Cons.IH [OF lp wf1 bound]
  show ?case
  proof (rule handleAlloc_step [OF ha Cons.prems(2)])
    fix CI F t callee f extra mt news
    assume gp: "get_parent M c = Some F"
      and gl: "globals M1 = globals M @
       [\<lparr>gty = ArrayTy (Suc (length (site_name (fname F) ''dynalloc'' l))) (IntTy 8),
         gconstant = True, ginit = site_name (fname F) ''dynalloc'' l\<rparr>]"
    have pn: "parent_name M1 c' = parent_name M c'" if "c' \<in> snd ` set rest" for c'
    proof (rule handleAlloc_parent [OF ha Cons.prems(2)])
      from that Cons.prems(3) show "c' < fresh_id M" by auto
    qed
    have "map (\<lambda>(l, c). name_global (site_name (the (parent_name M1 c)) ''dynalloc'' l)) rest =
          map (\<lambda>(l, c). name_global (site_name (the (parent_name M c)) ''dynalloc'' l)) rest"
    proof (rule map_cong [OF refl])
      fix y assume y: "y \<in> set rest"
      obtain l' c' where y': "y = (l', c')" by (cases y)
      with y have "c' \<in> snd ` set rest" by force
      from pn [OF this] show "(case y of (l, c) \<Rightarrow>
              name_global (site_name (the (parent_name M1 c)) ''dynalloc'' l)) =
             (case y of (l, c) \<Rightarrow>
              name_global (site_name (the (parent_name M c)) ''dynalloc'' l))"
        by (simp add: y')
    qed
    with ih gl gp show ?thesis
      by (simp add: x name_global_def parent_name_def)
  qed
qed

lemma handleAllocs_loop_state:
  assumes "handleAllocs_loop M st xs = Inr (M', st')" "wf_module M"
  shows "calls_to_replace st' = calls_to_replace st \<and> allocs_to_handle st' = allocs_to_handle st \<and>
         lines st' = lines st \<and> lines_nums st' = lines_nums st \<and>
         call_identifier st' = call_identifier st \<and>
         alloc_call_identifier st' = alloc_call_identifier st + of_nat (length xs) \<and>
         (xs \<noteq> [] \<longrightarrow> vms st' \<noteq> None) \<and> (xs = [] \<longrightarrow> vms st' = vms st)"
  using assms
proof (induction xs arbitrary: M st)
  case Nil
  then show ?case by simp
next
  case (Cons x rest)
  obtain l c where x: "x = (l, c)" by (cases x)
  from Cons.prems(1) [unfolded x] obtain M1 st1 where
    ha: "handleAlloc M st c l ''dynalloc'' = Inr (M1, st1)"
    and lp: "handleAllocs_loop M1 st1 rest = Inr (M', st')"
    by (rule handleAllocs_loop_Cons)
  from ha Cons.prems(2) obtain CI news where wf1: "wf_module M1"
    by (rule handleAlloc_sem)
  note ih = Cons.IH [OF lp wf1]
  show ?case
  proof (rule handleAlloc_step [OF ha Cons.prems(2)])
    fix CI F t callee f extra mt news
    assume "vms st1 = Some f"
      and "calls_to_replace st1 = calls_to_replace st" "allocs_to_handle st1 = allocs_to_handle st"
      and "lines_nums st1 = lines_nums st" "lines st1 = lines st"
      and "call_identifier st1 = call_identifier st"
      and "alloc_call_identifier st1 = alloc_call_identifier st + 1"
    with ih show ?thesis by (cases "rest = []") (simp_all add: x)
  qed
qed

lemma get_parent_exists:
  assumes "c \<in> iid ` set (all_insts M)"
  shows "\<exists>F. get_parent M c = Some F"
proof -
  from assms obtain F where "F \<in> set (funcs M)" "c \<in> set (map iid (body F))"
    by (auto simp: all_insts_def)
  then have "find (\<lambda>f. c \<in> set (map iid (body f))) (funcs M) \<noteq> None"
    by (auto simp: find_None_iff)
  then show ?thesis by (auto simp: get_parent_def)
qed

lemma runOnModule_facts:
  assumes run: "runOnModule e M = Inr (M', st', b)" and wf: "wf_module M"
  obtains st1 M1 st2 where
    "mapLines e (collect e M) = Inr st1"
    "replaceCalls_loop M st1 (calls_to_replace st1) = Inr (M1, st2)"
    "handleAllocs_loop M1 st2 (allocs_to_handle st1) = Inr (M', st')"
    "calls_to_replace st' = calls_to_replace st1" "allocs_to_handle st' = allocs_to_handle st1"
    "calls_to_replace st1 = calls_to_replace (collect e M)"
    "allocs_to_handle st1 = allocs_to_handle (collect e M)"
    "lines st' = lines st1" "lines st2 = lines st1"
    "vms st1 = None" "call_identifier st1 = 0" "alloc_call_identifier st1 = static_identifier e"
    "call_identifier st2 = of_nat (length (calls_to_replace st1))"
    "alloc_call_identifier st2 = static_identifier e"
    "\<forall>c \<in> snd ` set (calls_to_replace st1). c < fresh_id M"
    "\<forall>c \<in> snd ` set (allocs_to_handle st1). c < fresh_id M"
    "snd ` set (calls_to_replace st1) \<subseteq> iid ` set (all_insts M)"
    "snd ` set (allocs_to_handle st1) \<subseteq> iid ` set (all_insts M)"
    "wf_module M1" "wf_module M'" "fresh_id M \<le> fresh_id M1" "fresh_id M1 \<le> fresh_id M'"
proof -
  from run obtain st1 M1 st2 where
    ml: "mapLines e (collect e M) = Inr st1"
    and rl: "replaceCalls_loop M st1 (calls_to_replace st1) = Inr (M1, st2)"
    and hl: "handleAllocs_loop M1 st2 (allocs_to_handle st2) = Inr (M', st')"
    by (rule runOnModule_Inr)
  note mf = mapLines_Inr [OF ml]
  note ok = collect_ok [of e M, unfolded collected_ok_def]
  have sub: "snd ` set (calls_to_replace st1) \<subseteq> iid ` set (all_insts M)"
    "snd ` set (allocs_to_handle st1) \<subseteq> iid ` set (all_insts M)"
    using ok mf by simp_all
  have b1: "\<forall>c \<in> snd ` set (calls_to_replace st1). c < fresh_id M"
    and b2: "\<forall>c \<in> snd ` set (allocs_to_handle st1). c < fresh_id M"
    using sub by (auto dest!: subsetD intro: fresh_id_gt)
  note rs = replaceCalls_loop_state [OF rl wf]
  note rsem = replaceCalls_loop_sem [OF rl wf b1]
  from rsem have wf1: "wf_module M1" and fr1: "fresh_id M \<le> fresh_id M1" by simp_all
  note hs = handleAllocs_loop_state [OF hl wf1]
  note hsem = handleAllocs_loop_sem [OF hl wf1]
  from hsem have wf': "wf_module M'" and fr': "fresh_id M1 \<le> fresh_id M'" by simp_all
  from rs have a2: "allocs_to_handle st2 = allocs_to_handle st1" by simp
  show thesis
  proof (rule that [OF ml rl hl [unfolded a2]])
    show "calls_to_replace st' = calls_to_replace st1" using hs rs by simp
    show "allocs_to_handle st' = allocs_to_handle st1" using hs rs by simp
    show "calls_to_replace st1 = calls_to_replace (collect e M)" using mf by simp
    show "allocs_to_handle st1 = allocs_to_handle (collect e M)" using mf by simp
    show "lines st' = lines st1" using hs rs by simp
    show "lines st2 = lines st1" using rs by simp
    show "vms st1 = None" using ok mf by simp
    show "call_identifier st1 = 0" using ok mf by simp
    show "alloc_call_identifier st1 = static_identifier e" using ok mf by simp
    show "call_identifier st2 = of_nat (length (calls_to_replace st1))"
      using rs ok mf by simp
    show "alloc_call_identifier st2 = static_identifier e" using rs ok mf by simp
  qed (rule b1 b2 sub wf1 wf' fr1 fr')+
qed

lemma run_result:
  "\<not> isl (runOnModule e M) \<Longrightarrow>
   runOnModule e M = Inr (fst (projr (runOnModule e M)), fst (snd (projr (runOnModule e M))),
                          snd (snd (projr (runOnModule e M))))"
  by (cases "runOnModule e M") auto


definition cache_ok :: "module \<Rightarrow> pass_state \<Rightarrow> bool" where
  "cache_ok M st \<longleftrightarrow>
     vms st = None \<or>
     (vms st = Some ''klee_make_nondet'' \<and> ''klee_make_nondet'' \<in> fname ` set (funcs M))"

definition decl_added :: "module \<Rightarrow> pass_state \<Rightarrow> module \<Rightarrow> bool" where
  "decl_added M st M' \<longleftrightarrow>
     (\<exists>extra. map fname (funcs M') = map fname (funcs M) @ extra \<and>
        (extra = [] \<or> extra = [''klee_make_nondet'']) \<and>
        (extra \<noteq> [] \<longrightarrow> vms st = None \<and> ''klee_make_nondet'' \<notin> fname ` set (funcs M)))"

lemma decl_added_refl: "decl_added M st M"
  unfolding decl_added_def by (rule exI [of _ "[]"]) simp

lemma decl_added_trans:
  assumes "decl_added M st M1" "decl_added M1 st1 M'" "vms st1 \<noteq> None"
  shows "decl_added M st M'"
proof -
  from assms(2,3) have "map fname (funcs M') = map fname (funcs M1)"
    unfolding decl_added_def by auto
  with assms(1) show ?thesis unfolding decl_added_def by simp
qed

lemma step_cache:
  assumes fm: "funcs M' = map (body_map h) (funcs M @ extra)"
    and ex: "extra = [] \<or> (\<exists>t. extra = [klee_decl t])"
    and iff: "extra \<noteq> [] \<longleftrightarrow> vms st = None \<and> ''klee_make_nondet'' \<notin> fname ` set (funcs M)"
    and f: "vms st' = Some f" "vms st = None \<longrightarrow> f = ''klee_make_nondet''"
      "\<forall>g. vms st = Some g \<longrightarrow> f = g"
    and ok: "cache_ok M st"
  shows "cache_ok M' st' \<and> f = ''klee_make_nondet'' \<and> decl_added M st M'"
proof -
  have names: "map fname (funcs M') = map fname (funcs M) @ map fname extra"
    by (simp add: fm comp_def)
  from ex have ex': "map fname extra = [] \<or> map fname extra = [''klee_make_nondet'']"
    by (auto simp: klee_decl_def)
  from f ok have fk: "f = ''klee_make_nondet''"
    by (cases "vms st") (auto simp: cache_ok_def)
  have "''klee_make_nondet'' \<in> fname ` set (funcs M')"
  proof (cases "extra = []")
    case True
    with iff ok have "''klee_make_nondet'' \<in> fname ` set (funcs M)"
      by (auto simp: cache_ok_def)
    then have "''klee_make_nondet'' \<in> set (map fname (funcs M))" by simp
    then have "''klee_make_nondet'' \<in> set (map fname (funcs M'))" unfolding names by simp
    then show ?thesis by simp
  next
    case False
    with ex have "''klee_make_nondet'' \<in> set (map fname extra)" by (auto simp: klee_decl_def)
    then have "''klee_make_nondet'' \<in> set (map fname (funcs M'))" unfolding names by simp
    then show ?thesis by simp
  qed
  with f(1) fk have c: "cache_ok M' st'" by (simp add: cache_ok_def)
  have "decl_added M st M'"
    unfolding decl_added_def
    using names ex' iff by (intro exI [of _ "map fname extra"]) auto
  with c fk show ?thesis by simp
qed

lemma replaceCall_cache:
  assumes rc: "replaceCall M st ci l var = Inr (M', st')" and wf: "wf_module M"
    and ok: "cache_ok M st"
  shows "cache_ok M' st' \<and> vms st' = Some ''klee_make_nondet'' \<and> decl_added M st M'"
proof (rule replaceCall_step [OF rc wf])
  fix CI F szt f extra news
  assume f: "vms st' = Some f" "vms st = None \<longrightarrow> f = ''klee_make_nondet''"
      "\<forall>g. vms st = Some g \<longrightarrow> f = g"
    and fm: "funcs M' = map (body_map (rc_expand ci news (VInst (fresh_id M + 3)))) (funcs M @ extra)"
    and ex: "extra = [] \<or> (\<exists>t. extra = [klee_decl t])"
    and iff: "extra \<noteq> [] \<longleftrightarrow> vms st = None \<and> ''klee_make_nondet'' \<notin> fname ` set (funcs M)"
  from step_cache [OF fm ex iff f ok] f(1) show ?thesis by simp
qed

lemma handleAlloc_cache:
  assumes ha: "handleAlloc M st ci l var = Inr (M', st')" and wf: "wf_module M"
    and ok: "cache_ok M st"
  shows "cache_ok M' st' \<and> vms st' = Some ''klee_make_nondet'' \<and> decl_added M st M'"
proof (rule handleAlloc_step [OF ha wf])
  fix CI F t callee f extra mt news
  assume f: "vms st' = Some f" "vms st = None \<longrightarrow> f = ''klee_make_nondet''"
      "\<forall>g. vms st = Some g \<longrightarrow> f = g"
    and fm: "funcs M' = map (body_map (ha_expand ci news)) (funcs M @ extra)"
    and ex: "extra = [] \<or> (\<exists>t. extra = [klee_decl t])"
    and iff: "extra \<noteq> [] \<longleftrightarrow> vms st = None \<and> ''klee_make_nondet'' \<notin> fname ` set (funcs M)"
  from step_cache [OF fm ex iff f ok] f(1) show ?thesis by simp
qed

lemma replaceCalls_loop_cache:
  assumes "replaceCalls_loop M st xs = Inr (M', st')" "wf_module M" "cache_ok M st"
  shows "cache_ok M' st' \<and> decl_added M st M'"
  using assms
proof (induction xs arbitrary: M st)
  case Nil
  then show ?case by (simp add: decl_added_refl)
next
  case (Cons x rest)
  obtain l c where x: "x = (l, c)" by (cases x)
  from Cons.prems(1) [unfolded x] obtain M1 st1 where
    rc: "replaceCall M st c l (line_var st l) = Inr (M1, st1)"
    and lp: "replaceCalls_loop M1 st1 rest = Inr (M', st')"
    unfolding line_var_def by (rule replaceCalls_loop_Cons)
  from rc Cons.prems(2) obtain CI news where wf1: "wf_module M1"
    by (rule replaceCall_sem)
  from replaceCall_cache [OF rc Cons.prems(2,3)] have c1: "cache_ok M1 st1"
    and v1: "vms st1 = Some ''klee_make_nondet''" and d1: "decl_added M st M1" by simp_all
  from Cons.IH [OF lp wf1 c1] have c': "cache_ok M' st'" and d': "decl_added M1 st1 M'"
    by simp_all
  from decl_added_trans [OF d1 d'] v1 c' show ?case by simp
qed

lemma handleAllocs_loop_cache:
  assumes "handleAllocs_loop M st xs = Inr (M', st')" "wf_module M" "cache_ok M st"
  shows "cache_ok M' st' \<and> decl_added M st M'"
  using assms
proof (induction xs arbitrary: M st)
  case Nil
  then show ?case by (simp add: decl_added_refl)
next
  case (Cons x rest)
  obtain l c where x: "x = (l, c)" by (cases x)
  from Cons.prems(1) [unfolded x] obtain M1 st1 where
    ha: "handleAlloc M st c l ''dynalloc'' = Inr (M1, st1)"
    and lp: "handleAllocs_loop M1 st1 rest = Inr (M', st')"
    by (rule handleAllocs_loop_Cons)
  from ha Cons.prems(2) obtain CI news where wf1: "wf_module M1"
    by (rule handleAlloc_sem)
  from handleAlloc_cache [OF ha Cons.prems(2,3)] have c1: "cache_ok M1 st1"
    and v1: "vms st1 = Some ''klee_make_nondet''" and d1: "decl_added M st M1" by simp_all
  from Cons.IH [OF lp wf1 c1] have c': "cache_ok M' st'" and d': "decl_added M1 st1 M'"
    by simp_all
  from decl_added_trans [OF d1 d'] v1 c' show ?case by simp
qed

lemma fresh_id_le:
  assumes "\<And>i. i \<in> set (all_insts M) \<Longrightarrow> iid i < m" "0 < m"
  shows "fresh_id M \<le> m"
proof -
  have "foldr max (map iid (all_insts M)) 0 \<le> m - 1"
  proof (rule foldr_max_le)
    fix x assume "x \<in> set (map iid (all_insts M))"
    then obtain i where "i \<in> set (all_insts M)" "x = iid i" by auto
    with assms(1) [of i] show "x \<le> m - 1" by simp
  qed simp
  with assms(2) show ?thesis by (simp add: fresh_id_def)
qed

lemma wf_same_id:
  assumes "wf_module M" "i \<in> set (all_insts M)" "j \<in> set (all_insts M)" "iid i = iid j"
  shows "i = j"
proof -
  from assms(1) have "inj_on iid (set (all_insts M))"
    unfolding wf_module_def by (simp add: distinct_map)
  with assms(2-4) show ?thesis by (auto dest: inj_onD)
qed

lemma redirected_same:
  assumes r: "redirected S i i'" and n: "\<forall>v \<in> set (operands i). v \<notin> VInst ` S"
  shows "i' = i"
proof -
  from r obtain ops where i': "i' = i\<lparr>operands := ops\<rparr>" and len: "length ops = length (operands i)"
    and same: "\<forall>k < length ops. operands i ! k \<notin> VInst ` S \<longrightarrow> ops ! k = operands i ! k"
    unfolding redirected_def by blast
  have "ops = operands i"
  proof (rule nth_equalityI [OF len])
    fix k assume k: "k < length ops"
    with len have "operands i ! k \<in> set (operands i)" by simp
    with n have "operands i ! k \<notin> VInst ` S" by blast
    with same k show "ops ! k = operands i ! k" by blast
  qed
  with i' show ?thesis by simp
qed

lemma handleAlloc_full:
  assumes ha: "handleAlloc M st ci l var = Inr (M', st')" and wf: "wf_module M"
    and ok: "cache_ok M st"
  obtains CI callee mt extra news where
    "CI \<in> set (all_insts M)" "iid CI = ci" "getCalledFunction CI = Some callee"
    "callee = ''calloc'' \<longrightarrow> 2 \<le> length (operands CI)"
    "news = ha_news CI ci (fresh_id M) callee mt (length (globals M))
              (unat (alloc_call_identifier st + 1)) ''klee_make_nondet''"
    "funcs M' = map (body_map (ha_expand ci news)) (funcs M @ extra)"
    "extra = [] \<or> (\<exists>t. extra = [klee_decl t])"
    "all_insts M' = concat (map (ha_expand ci news) (all_insts M))"
    "set (all_insts M') = set (all_insts M) \<union> set news"
    "wf_module M'" "fresh_id M' = fresh_id M + 3" "cache_ok M' st'"
    "length (globals M') = Suc (length (globals M))"
    "alloc_call_identifier st' = alloc_call_identifier st + 1"
proof (rule handleAlloc_step [OF ha wf])
  fix CI F t callee f extra mt news
  assume CI: "CI \<in> set (all_insts M)" "iid CI = ci"
    and cal: "getCalledFunction CI = Some callee" "callee = ''calloc'' \<longrightarrow> 2 \<le> length (operands CI)"
    and f: "vms st' = Some f" "vms st = None \<longrightarrow> f = ''klee_make_nondet''"
      "\<forall>g. vms st = Some g \<longrightarrow> f = g"
    and news: "news = ha_news CI ci (fresh_id M) callee mt (length (globals M))
              (unat (alloc_call_identifier st + 1)) f"
    and fm: "funcs M' = map (body_map (ha_expand ci news)) (funcs M @ extra)"
    and ex: "extra = [] \<or> (\<exists>t. extra = [klee_decl t])"
    and iff: "extra \<noteq> [] \<longleftrightarrow> vms st = None \<and> ''klee_make_nondet'' \<notin> fname ` set (funcs M)"
    and gl: "globals M' = globals M @
       [\<lparr>gty = ArrayTy (Suc (length (site_name (fname F) var l))) (IntTy 8),
         gconstant = True, ginit = site_name (fname F) var l\<rparr>]"
    and al: "alloc_call_identifier st' = alloc_call_identifier st + 1"
  from step_cache [OF fm ex iff f ok] have c': "cache_ok M' st'" and fk: "f = ''klee_make_nondet''"
    by simp_all
  note news' = news [unfolded fk]
  have ids: "map iid news =
     (if callee = ''calloc'' then [fresh_id M + 1, fresh_id M, fresh_id M + 2]
      else [fresh_id M, fresh_id M + 2])"
    unfolding news by (rule ha_news_ids)
  have ai: "all_insts M' = concat (map (ha_expand ci news) (all_insts M))"
    using fm by (rule all_insts_body_map) (simp only: all_insts_append_klee [OF ex] all_insts_def)
  from CI have cin: "ci \<in> iid ` set (all_insts M)" by auto
  have st: "set (all_insts M') = set (all_insts M) \<union> set news"
    unfolding ai by (rule ha_expand_set [OF cin])
  have lt: "\<forall>j \<in> set (map iid (all_insts M)). j < fresh_id M"
    by (auto intro: fresh_id_gt)
  have dn: "distinct (map iid news)" "\<forall>m \<in> set (map iid news). fresh_id M \<le> m"
    unfolding ids by (simp_all split: if_splits)
  have "distinct (map iid (all_insts M'))"
    unfolding ai ha_expand_map_iid
    using expand_ids [OF wf [unfolded wf_module_def] lt dn, of "\<lambda>j. [j]" ci]
    by simp
  then have wf': "wf_module M'" by (simp add: wf_module_def)
  have "\<exists>i \<in> set (all_insts M'). iid i = fresh_id M + 2"
  proof -
    from ids have "fresh_id M + 2 \<in> set (map iid news)" by (simp split: if_splits)
    then obtain i where "i \<in> set news" "iid i = fresh_id M + 2" by auto
    with st show ?thesis by auto
  qed
  then have fr: "fresh_id M + 2 < fresh_id M'" by (auto dest: fresh_id_gt)
  have "fresh_id M' \<le> fresh_id M + 3"
  proof (rule fresh_id_le)
    fix i assume "i \<in> set (all_insts M')"
    with st have "i \<in> set (all_insts M) \<or> i \<in> set news" by simp
    then show "iid i < fresh_id M + 3"
    proof
      assume "i \<in> set (all_insts M)"
      then have "iid i < fresh_id M" by (rule fresh_id_gt)
      then show ?thesis by simp
    next
      assume "i \<in> set news"
      then have "iid i \<in> set (map iid news)" by simp
      then show ?thesis unfolding ids by (auto split: if_splits)
    qed
  qed simp
  with fr have fe: "fresh_id M' = fresh_id M + 3" by simp
  from gl have gl': "length (globals M') = Suc (length (globals M))" by simp
  show thesis by (rule that [OF CI cal news' fm ex ai st wf' fe c' gl' al])
qed

lemma replaceCall_full:
  assumes rc: "replaceCall M st ci l var = Inr (M', st')" and wf: "wf_module M"
    and ok: "cache_ok M st"
  obtains CI szt name extra news where
    "CI \<in> set (all_insts M)" "iid CI = ci" "ity CI \<noteq> VoidTy"
    "news = rc_new CI (fresh_id M) szt (type_alloc_size M (ity CI)) (length (globals M))
              (unat (call_identifier st + 1)) ''klee_make_nondet'' name"
    "funcs M' = map (body_map (rc_expand ci news (VInst (fresh_id M + 3)))) (funcs M @ extra)"
    "extra = [] \<or> (\<exists>t. extra = [klee_decl t])"
    "all_insts M' = concat (map (rc_expand ci news (VInst (fresh_id M + 3))) (all_insts M))"
    "set (all_insts M') =
       subst_inst ci (VInst (fresh_id M + 3)) ` {i \<in> set (all_insts M). iid i \<noteq> ci} \<union> set news"
    "wf_module M'" "fresh_id M' = fresh_id M + 4" "cache_ok M' st'"
    "length (globals M') = Suc (length (globals M))"
    "call_identifier st' = call_identifier st + 1"
    "type_alloc_size M' = type_alloc_size M"
proof (rule replaceCall_step [OF rc wf])
  fix CI F szt f extra news
  assume CI: "CI \<in> set (all_insts M)" "iid CI = ci" and nv: "ity CI \<noteq> VoidTy"
    and f: "vms st' = Some f" "vms st = None \<longrightarrow> f = ''klee_make_nondet''"
      "\<forall>g. vms st = Some g \<longrightarrow> f = g"
    and news: "news = rc_new CI (fresh_id M) szt (type_alloc_size M (ity CI)) (length (globals M))
              (unat (call_identifier st + 1)) f (site_name (fname F) var l)"
    and fm: "funcs M' = map (body_map (rc_expand ci news (VInst (fresh_id M + 3)))) (funcs M @ extra)"
    and ex: "extra = [] \<or> (\<exists>t. extra = [klee_decl t])"
    and iff: "extra \<noteq> [] \<longleftrightarrow> vms st = None \<and> ''klee_make_nondet'' \<notin> fname ` set (funcs M)"
    and gl: "globals M' = globals M @
       [\<lparr>gty = ArrayTy (Suc (length (site_name (fname F) var l))) (IntTy 8),
         gconstant = True, ginit = site_name (fname F) var l\<rparr>]"
    and ci': "call_identifier st' = call_identifier st + 1"
    and ta: "type_alloc_size M' = type_alloc_size M"
  from step_cache [OF fm ex iff f ok] have c': "cache_ok M' st'" and fk: "f = ''klee_make_nondet''"
    by simp_all
  note news' = news [unfolded fk]
  have ids: "map iid news = [fresh_id M, fresh_id M + 1, fresh_id M + 2, fresh_id M + 3]"
    unfolding news by (rule rc_new_ids)
  have ai: "all_insts M' = concat (map (rc_expand ci news (VInst (fresh_id M + 3))) (all_insts M))"
    using fm by (rule all_insts_body_map) (simp only: all_insts_append_klee [OF ex] all_insts_def)
  from CI have cin: "ci \<in> iid ` set (all_insts M)" by auto
  have st: "set (all_insts M') =
       subst_inst ci (VInst (fresh_id M + 3)) ` {i \<in> set (all_insts M). iid i \<noteq> ci} \<union> set news"
    unfolding ai by (rule rc_expand_set [OF cin])
  have lt: "\<forall>j \<in> set (map iid (all_insts M)). j < fresh_id M"
    by (auto intro: fresh_id_gt)
  have "distinct (map iid (all_insts M'))"
    unfolding ai rc_expand_map_iid ids
    using expand_ids [OF wf [unfolded wf_module_def] lt, of "[fresh_id M, fresh_id M + 1, fresh_id M + 2, fresh_id M + 3]" "\<lambda>j. []" ci]
    by simp
  then have wf': "wf_module M'" by (simp add: wf_module_def)
  have "\<exists>i \<in> set (all_insts M'). iid i = fresh_id M + 3"
  proof -
    from ids have "fresh_id M + 3 \<in> set (map iid news)" by simp
    then obtain i where "i \<in> set news" "iid i = fresh_id M + 3" by auto
    with st show ?thesis by auto
  qed
  then have fr: "fresh_id M + 3 < fresh_id M'" by (auto dest: fresh_id_gt)
  have "fresh_id M' \<le> fresh_id M + 4"
  proof (rule fresh_id_le)
    fix i assume "i \<in> set (all_insts M')"
    with st have "(\<exists>j \<in> set (all_insts M). i = subst_inst ci (VInst (fresh_id M + 3)) j) \<or> i \<in> set news"
      by auto
    then show "iid i < fresh_id M + 4"
    proof
      assume "\<exists>j \<in> set (all_insts M). i = subst_inst ci (VInst (fresh_id M + 3)) j"
      then obtain j where "j \<in> set (all_insts M)" "iid i = iid j" by auto
      with fresh_id_gt [of j M] show ?thesis by simp
    next
      assume "i \<in> set news"
      then have "iid i \<in> set (map iid news)" by simp
      then show ?thesis unfolding ids by auto
    qed
  qed simp
  with fr have fe: "fresh_id M' = fresh_id M + 4" by simp
  from gl have gl': "length (globals M') = Suc (length (globals M))" by simp
  show thesis by (rule that [OF CI nv news' fm ex ai st wf' fe c' gl' ci' ta])
qed

subsection \<open>What the allocation phase adds, site by site\<close>

definition ha_site :: "module \<Rightarrow> pass_state \<Rightarrow> (nat \<times> nat) list \<Rightarrow> nat \<Rightarrow> inst list \<Rightarrow> bool" where
  "ha_site M st xs k news \<longleftrightarrow>
     (\<exists>CI callee mt. CI \<in> set (all_insts M) \<and> iid CI = snd (xs ! k) \<and>
        getCalledFunction CI = Some callee \<and>
        (callee = ''calloc'' \<longrightarrow> 2 \<le> length (operands CI)) \<and>
        news = ha_news CI (snd (xs ! k)) (fresh_id M + 3 * k) callee mt (length (globals M) + k)
                 (unat (alloc_call_identifier st + of_nat k + 1)) ''klee_make_nondet'')"

lemma ha_news_new: "i \<in> set (ha_news CI ci n callee mt g k f) \<Longrightarrow> n \<le> iid i"
  by (auto simp: ha_news_def ha_mul_def ha_cast_def ha_call_def split: if_splits)

lemma ha_site_shift:
  assumes s: "ha_site M1 st1 rest k news"
    and old: "\<And>i. i \<in> set (all_insts M1) \<Longrightarrow> iid i < fresh_id M \<Longrightarrow> i \<in> set (all_insts M)"
    and b: "snd (rest ! k) < fresh_id M"
    and fr: "fresh_id M1 = fresh_id M + 3"
    and gl: "length (globals M1) = Suc (length (globals M))"
    and al: "alloc_call_identifier st1 = alloc_call_identifier st + 1"
  shows "ha_site M st (x # rest) (Suc k) news"
proof -
  from s obtain CI callee mt where CI: "CI \<in> set (all_insts M1)" "iid CI = snd (rest ! k)"
    and c: "getCalledFunction CI = Some callee" "callee = ''calloc'' \<longrightarrow> 2 \<le> length (operands CI)"
    and n: "news = ha_news CI (snd (rest ! k)) (fresh_id M1 + 3 * k) callee mt (length (globals M1) + k)
                 (unat (alloc_call_identifier st1 + of_nat k + 1)) ''klee_make_nondet''"
    unfolding ha_site_def by blast
  from CI b have CI': "CI \<in> set (all_insts M)" by (auto intro: old)
  have e1: "fresh_id M1 + 3 * k = fresh_id M + 3 * Suc k" by (simp add: fr)
  have e2: "length (globals M1) + k = length (globals M) + Suc k" by (simp add: gl)
  have e3: "alloc_call_identifier st1 + of_nat k + 1 = alloc_call_identifier st + of_nat (Suc k) + 1"
    by (simp add: al)
  have n': "news = ha_news CI (snd ((x # rest) ! Suc k)) (fresh_id M + 3 * Suc k) callee mt
                 (length (globals M) + Suc k)
                 (unat (alloc_call_identifier st + of_nat (Suc k) + 1)) ''klee_make_nondet''"
    unfolding n e1 e2 e3 by simp
  have id': "iid CI = snd ((x # rest) ! Suc k)" using CI(2) by simp
  show ?thesis unfolding ha_site_def
    by (rule exI [of _ CI], rule exI [of _ callee], rule exI [of _ mt]) (intro conjI CI' id' c n')
qed

lemma handleAllocs_loop_sites:
  assumes "handleAllocs_loop M st xs = Inr (M', st')" "wf_module M" "cache_ok M st"
    "\<forall>c \<in> snd ` set xs. c < fresh_id M"
  shows "fresh_id M' = fresh_id M + 3 * length xs \<and> cache_ok M' st' \<and>
         (\<forall>k < length xs. \<exists>news. ha_site M st xs k news \<and> set news \<subseteq> set (all_insts M')) \<and>
         (\<forall>i' \<in> set (all_insts M'). fresh_id M \<le> iid i' \<longrightarrow>
            (\<exists>k < length xs. \<exists>news. ha_site M st xs k news \<and> i' \<in> set news \<and>
                set news \<subseteq> set (all_insts M')))"
  using assms
proof (induction xs arbitrary: M st)
  case Nil
  then have "M' = M" "st' = st" by simp_all
  with Nil.prems(3) show ?case by (auto dest: fresh_id_gt)
next
  case (Cons x rest)
  obtain l c where x: "x = (l, c)" by (cases x)
  from Cons.prems(1) [unfolded x] obtain M1 st1 where
    ha: "handleAlloc M st c l ''dynalloc'' = Inr (M1, st1)"
    and lp: "handleAllocs_loop M1 st1 rest = Inr (M', st')"
    by (rule handleAllocs_loop_Cons)
  from ha Cons.prems(2,3) obtain CI callee mt news0 where
    CI: "CI \<in> set (all_insts M)" "iid CI = c" "getCalledFunction CI = Some callee"
      "callee = ''calloc'' \<longrightarrow> 2 \<le> length (operands CI)"
    and n0: "news0 = ha_news CI c (fresh_id M) callee mt (length (globals M))
              (unat (alloc_call_identifier st + 1)) ''klee_make_nondet''"
    and st: "set (all_insts M1) = set (all_insts M) \<union> set news0"
    and wf1: "wf_module M1" and fr: "fresh_id M1 = fresh_id M + 3" and ok1: "cache_ok M1 st1"
    and gl: "length (globals M1) = Suc (length (globals M))"
    and al: "alloc_call_identifier st1 = alloc_call_identifier st + 1"
    by (rule handleAlloc_full)
  have site0: "ha_site M st (x # rest) 0 news0"
    unfolding ha_site_def
    by (rule exI [of _ CI], rule exI [of _ callee], rule exI [of _ mt])
       (use CI n0 in \<open>simp add: x\<close>)
  have b1: "\<forall>c \<in> snd ` set rest. c < fresh_id M1" using Cons.prems(4) fr by auto
  note ih = Cons.IH [OF lp wf1 ok1 b1]
  from ih have fr': "fresh_id M' = fresh_id M1 + 3 * length rest" and ok': "cache_ok M' st'"
    and ex: "\<forall>k < length rest. \<exists>news. ha_site M1 st1 rest k news \<and> set news \<subseteq> set (all_insts M')"
    and nw: "\<forall>i' \<in> set (all_insts M'). fresh_id M1 \<le> iid i' \<longrightarrow>
            (\<exists>k < length rest. \<exists>news. ha_site M1 st1 rest k news \<and> i' \<in> set news \<and>
                set news \<subseteq> set (all_insts M'))"
    by simp_all
  from handleAllocs_loop_sem [OF lp wf1]
  have inc: "set (all_insts M1) \<subseteq> set (all_insts M')"
    and bk: "\<forall>i' \<in> set (all_insts M'). iid i' < fresh_id M1 \<longrightarrow> i' \<in> set (all_insts M1)"
    by simp_all
  have old: "i \<in> set (all_insts M)" if "i \<in> set (all_insts M1)" "iid i < fresh_id M" for i
  proof -
    from that(1) st have "i \<in> set (all_insts M) \<or> i \<in> set news0" by simp
    moreover have "fresh_id M \<le> iid i" if "i \<in> set news0"
      using that unfolding n0 by (rule ha_news_new)
    ultimately show ?thesis using that(2) by auto
  qed
  have shift: "ha_site M st (x # rest) (Suc k) news"
    if "ha_site M1 st1 rest k news" "k < length rest" for k news
  proof (rule ha_site_shift [OF that(1) old _ fr gl al])
    from that(2) have "snd (rest ! k) \<in> snd ` set (x # rest)" by simp
    with Cons.prems(4) show "snd (rest ! k) < fresh_id M" by blast
  qed
  have F: "fresh_id M' = fresh_id M + 3 * length (x # rest)" using fr fr' by simp
  have E: "\<exists>news. ha_site M st (x # rest) k news \<and> set news \<subseteq> set (all_insts M')"
    if k: "k < length (x # rest)" for k
  proof (cases k)
    case 0
    from st inc have "set news0 \<subseteq> set (all_insts M')" by auto
    with site0 0 show ?thesis by blast
  next
    case (Suc k')
    with k have k': "k' < length rest" by simp
    with ex obtain news where s: "ha_site M1 st1 rest k' news" "set news \<subseteq> set (all_insts M')"
      by blast
    from shift [OF s(1) k'] s(2) Suc show ?thesis by blast
  qed
  have N: "\<exists>k < length (x # rest). \<exists>news. ha_site M st (x # rest) k news \<and> i' \<in> set news \<and>
             set news \<subseteq> set (all_insts M')"
    if i': "i' \<in> set (all_insts M')" "fresh_id M \<le> iid i'" for i'
  proof (cases "fresh_id M1 \<le> iid i'")
    case True
    with nw i'(1) obtain k news where k: "k < length rest"
      and s: "ha_site M1 st1 rest k news" "i' \<in> set news" "set news \<subseteq> set (all_insts M')" by blast
    from k have "Suc k < length (x # rest)" by simp
    with shift [OF s(1) k] s(2,3) show ?thesis by blast
  next
    case False
    with bk i'(1) have "i' \<in> set (all_insts M1)" by auto
    with st have "i' \<in> set (all_insts M) \<or> i' \<in> set news0" by simp
    with i'(2) fresh_id_gt [of i' M] have "i' \<in> set news0" by auto
    moreover from st inc have "set news0 \<subseteq> set (all_insts M')" by auto
    ultimately show ?thesis using site0 by auto
  qed
  from F ok' E N show ?case by blast
qed

subsection \<open>What the replacement phase adds, site by site\<close>

definition rc_site :: "module \<Rightarrow> pass_state \<Rightarrow> (nat \<times> nat) list \<Rightarrow> nat \<Rightarrow> inst list \<Rightarrow> bool" where
  "rc_site M st xs k news \<longleftrightarrow>
     (\<exists>CI szt name. CI \<in> set (all_insts M) \<and> iid CI = snd (xs ! k) \<and> ity CI \<noteq> VoidTy \<and>
        news = rc_new CI (fresh_id M + 4 * k) szt (type_alloc_size M (ity CI))
                 (length (globals M) + k)
                 (unat (call_identifier st + of_nat k + 1)) ''klee_make_nondet'' name)"

lemma rc_new_of_subst: "rc_new (subst_inst c v CI) = rc_new CI"
  by (intro ext) (simp add: rc_new_def subst_inst_def)

lemma rc_new_new: "i \<in> set (rc_new CI n szt sz g k f name) \<Longrightarrow> n \<le> iid i"
  by (auto simp: rc_new_def)

lemma rc_new_operands:
  "i \<in> set (rc_new CI n szt sz g k f name) \<Longrightarrow> v \<in> set (operands i) \<Longrightarrow>
   \<forall>s \<in> S. s < n \<Longrightarrow> v \<notin> VInst ` S"
  by (auto simp: rc_new_def)

lemma rc_site_shift:
  assumes s: "rc_site M1 st1 rest k news"
    and old: "\<And>i. i \<in> set (all_insts M1) \<Longrightarrow> iid i < fresh_id M \<Longrightarrow>
                \<exists>j \<in> set (all_insts M). i = subst_inst c v j"
    and b: "snd (rest ! k) < fresh_id M"
    and fr: "fresh_id M1 = fresh_id M + 4"
    and gl: "length (globals M1) = Suc (length (globals M))"
    and al: "call_identifier st1 = call_identifier st + 1"
    and ta: "type_alloc_size M1 = type_alloc_size M"
  shows "rc_site M st (x # rest) (Suc k) news"
proof -
  from s obtain CI szt name where CI: "CI \<in> set (all_insts M1)" "iid CI = snd (rest ! k)"
    and nv: "ity CI \<noteq> VoidTy"
    and n: "news = rc_new CI (fresh_id M1 + 4 * k) szt (type_alloc_size M1 (ity CI))
                 (length (globals M1) + k)
                 (unat (call_identifier st1 + of_nat k + 1)) ''klee_make_nondet'' name"
    unfolding rc_site_def by blast
  from CI b obtain CI0 where CI0: "CI0 \<in> set (all_insts M)" "CI = subst_inst c v CI0"
    using old [of CI] by auto
  have ty: "ity CI = ity CI0" unfolding CI0(2) by (simp add: subst_inst_def)
  have e1: "fresh_id M1 + 4 * k = fresh_id M + 4 * Suc k" by (simp add: fr)
  have e2: "length (globals M1) + k = length (globals M) + Suc k" by (simp add: gl)
  have e3: "call_identifier st1 + of_nat k + 1 = call_identifier st + of_nat (Suc k) + 1"
    by (simp add: al)
  have n': "news = rc_new CI0 (fresh_id M + 4 * Suc k) szt (type_alloc_size M (ity CI0))
                 (length (globals M) + Suc k)
                 (unat (call_identifier st + of_nat (Suc k) + 1)) ''klee_make_nondet'' name"
    unfolding n e1 e2 e3 ta ty unfolding CI0(2) rc_new_of_subst ..
  have id': "iid CI0 = snd ((x # rest) ! Suc k)" using CI(2) CI0(2) by simp
  have nv': "ity CI0 \<noteq> VoidTy" using nv ty by simp
  show ?thesis unfolding rc_site_def
    by (rule exI [of _ CI0], rule exI [of _ szt], rule exI [of _ name]) (intro conjI CI0(1) id' nv' n')
qed

lemma replaceCalls_loop_sites:
  assumes "replaceCalls_loop M st xs = Inr (M', st')" "wf_module M" "cache_ok M st"
    "\<forall>c \<in> snd ` set xs. c < fresh_id M"
  shows "fresh_id M' = fresh_id M + 4 * length xs \<and> cache_ok M' st' \<and>
         (\<forall>k < length xs. \<exists>news. rc_site M st xs k news \<and> set news \<subseteq> set (all_insts M')) \<and>
         (\<forall>i' \<in> set (all_insts M'). fresh_id M \<le> iid i' \<longrightarrow>
            (\<exists>k < length xs. \<exists>news. rc_site M st xs k news \<and> i' \<in> set news \<and>
                set news \<subseteq> set (all_insts M')))"
  using assms
proof (induction xs arbitrary: M st)
  case Nil
  then have "M' = M" "st' = st" by simp_all
  with Nil.prems(3) show ?case by (auto dest: fresh_id_gt)
next
  case (Cons x rest)
  obtain l c where x: "x = (l, c)" by (cases x)
  from Cons.prems(1) [unfolded x] obtain M1 st1 where
    rc: "replaceCall M st c l (line_var st l) = Inr (M1, st1)"
    and lp: "replaceCalls_loop M1 st1 rest = Inr (M', st')"
    unfolding line_var_def by (rule replaceCalls_loop_Cons)
  from rc Cons.prems(2,3) obtain CI szt name news0 where
    CI: "CI \<in> set (all_insts M)" "iid CI = c" "ity CI \<noteq> VoidTy"
    and n0: "news0 = rc_new CI (fresh_id M) szt (type_alloc_size M (ity CI)) (length (globals M))
              (unat (call_identifier st + 1)) ''klee_make_nondet'' name"
    and st: "set (all_insts M1) =
       subst_inst c (VInst (fresh_id M + 3)) ` {i \<in> set (all_insts M). iid i \<noteq> c} \<union> set news0"
    and wf1: "wf_module M1" and fr: "fresh_id M1 = fresh_id M + 4" and ok1: "cache_ok M1 st1"
    and gl: "length (globals M1) = Suc (length (globals M))"
    and al: "call_identifier st1 = call_identifier st + 1"
    and ta: "type_alloc_size M1 = type_alloc_size M"
    by (rule replaceCall_full)
  have site0: "rc_site M st (x # rest) 0 news0"
    unfolding rc_site_def
    by (rule exI [of _ CI], rule exI [of _ szt], rule exI [of _ name])
       (use CI n0 in \<open>simp add: x\<close>)
  have b1: "\<forall>c \<in> snd ` set rest. c < fresh_id M1" using Cons.prems(4) fr by auto
  have b0: "\<forall>s \<in> snd ` set rest. s < fresh_id M" using Cons.prems(4) by auto
  note ih = Cons.IH [OF lp wf1 ok1 b1]
  from ih have fr': "fresh_id M' = fresh_id M1 + 4 * length rest" and ok': "cache_ok M' st'"
    and ex: "\<forall>k < length rest. \<exists>news. rc_site M1 st1 rest k news \<and> set news \<subseteq> set (all_insts M')"
    and nw: "\<forall>i' \<in> set (all_insts M'). fresh_id M1 \<le> iid i' \<longrightarrow>
            (\<exists>k < length rest. \<exists>news. rc_site M1 st1 rest k news \<and> i' \<in> set news \<and>
                set news \<subseteq> set (all_insts M'))"
    by simp_all
  from replaceCalls_loop_sem [OF lp wf1 b1]
  have bk: "\<forall>i' \<in> set (all_insts M'). iid i' < fresh_id M1 \<longrightarrow>
            (\<exists>i \<in> set (all_insts M1). iid i \<notin> snd ` set rest \<and> redirected (snd ` set rest) i i')"
    and fw: "\<forall>i \<in> set (all_insts M1). iid i \<notin> snd ` set rest \<longrightarrow>
            (\<exists>i' \<in> set (all_insts M'). redirected (snd ` set rest) i i')"
    by simp_all
  have new0: "fresh_id M \<le> iid i" if "i \<in> set news0" for i
    using that unfolding n0 by (rule rc_new_new)
  have ops0: "\<forall>v \<in> set (operands i). v \<notin> VInst ` snd ` set rest" if "i \<in> set news0" for i
  proof
    fix v assume "v \<in> set (operands i)"
    from rc_new_operands [OF that [unfolded n0] this b0] show "v \<notin> VInst ` snd ` set rest" .
  qed
  have old: "\<exists>j \<in> set (all_insts M). i = subst_inst c (VInst (fresh_id M + 3)) j"
    if "i \<in> set (all_insts M1)" "iid i < fresh_id M" for i
  proof -
    from that(1) st have "i \<in> subst_inst c (VInst (fresh_id M + 3)) ` {i \<in> set (all_insts M). iid i \<noteq> c}
        \<or> i \<in> set news0" by simp
    with new0 [of i] that(2) show ?thesis by auto
  qed
  have shift: "rc_site M st (x # rest) (Suc k) news"
    if "rc_site M1 st1 rest k news" "k < length rest" for k news
  proof (rule rc_site_shift [OF that(1) old _ fr gl al ta])
    from that(2) have "snd (rest ! k) \<in> snd ` set (x # rest)" by simp
    with Cons.prems(4) show "snd (rest ! k) < fresh_id M" by blast
  qed
  have F: "fresh_id M' = fresh_id M + 4 * length (x # rest)" using fr fr' by simp
  have keep: "i \<in> set (all_insts M')" if i: "i \<in> set news0" for i
  proof -
    from i st have i1: "i \<in> set (all_insts M1)" by simp
    from new0 [OF i] b0 have "iid i \<notin> snd ` set rest" by auto
    with fw i1 obtain i' where i': "i' \<in> set (all_insts M')" "redirected (snd ` set rest) i i'"
      by blast
    from redirected_same [OF i'(2) ops0 [OF i]] i'(1) show ?thesis by simp
  qed
  have E: "\<exists>news. rc_site M st (x # rest) k news \<and> set news \<subseteq> set (all_insts M')"
    if k: "k < length (x # rest)" for k
  proof (cases k)
    case 0
    from keep have "set news0 \<subseteq> set (all_insts M')" by blast
    with site0 0 show ?thesis by blast
  next
    case (Suc k')
    with k have k': "k' < length rest" by simp
    with ex obtain news where s: "rc_site M1 st1 rest k' news" "set news \<subseteq> set (all_insts M')"
      by blast
    from shift [OF s(1) k'] s(2) Suc show ?thesis by blast
  qed
  have N: "\<exists>k < length (x # rest). \<exists>news. rc_site M st (x # rest) k news \<and> i' \<in> set news \<and>
             set news \<subseteq> set (all_insts M')"
    if i': "i' \<in> set (all_insts M')" "fresh_id M \<le> iid i'" for i'
  proof (cases "fresh_id M1 \<le> iid i'")
    case True
    with nw i'(1) obtain k news where k: "k < length rest"
      and s: "rc_site M1 st1 rest k news" "i' \<in> set news" "set news \<subseteq> set (all_insts M')" by blast
    from k have "Suc k < length (x # rest)" by simp
    with shift [OF s(1) k] s(2,3) show ?thesis by blast
  next
    case False
    with bk i'(1) obtain i1 where i1: "i1 \<in> set (all_insts M1)"
      "redirected (snd ` set rest) i1 i'" by force
    from redirected_fields(1) [OF i1(2)] i'(2) have ge: "fresh_id M \<le> iid i1" by simp
    have "i1 \<in> set news0"
    proof (rule ccontr)
      assume "i1 \<notin> set news0"
      with i1(1) st obtain j where "j \<in> set (all_insts M)" "i1 = subst_inst c (VInst (fresh_id M + 3)) j"
        by auto
      with fresh_id_gt [of j M] ge show False by simp
    qed
    from redirected_same [OF i1(2) ops0 [OF this]] this have "i' \<in> set news0" by simp
    moreover from keep have "set news0 \<subseteq> set (all_insts M')" by blast
    ultimately show ?thesis using site0 by auto
  qed
  from F ok' E N show ?case by blast
qed

lemma replaceCalls_loop_uses:
  assumes "replaceCalls_loop M st xs = Inr (M', st')" "wf_module M" "cache_ok M st"
    "\<forall>c \<in> snd ` set xs. c < fresh_id M"
  shows "\<forall>k < length xs. \<forall>u \<in> set (all_insts M). \<forall>u' \<in> set (all_insts M'). iid u' = iid u \<longrightarrow>
           (\<forall>j < length (operands u). operands u ! j = VInst (snd (xs ! k)) \<longrightarrow>
              operands u' ! j = VInst (fresh_id M + 4 * k + 3))"
  using assms
proof (induction xs arbitrary: M st)
  case Nil
  then show ?case by simp
next
  case (Cons x rest)
  obtain l c where x: "x = (l, c)" by (cases x)
  from Cons.prems(1) [unfolded x] obtain M1 st1 where
    rc: "replaceCall M st c l (line_var st l) = Inr (M1, st1)"
    and lp: "replaceCalls_loop M1 st1 rest = Inr (M', st')"
    unfolding line_var_def by (rule replaceCalls_loop_Cons)
  from rc Cons.prems(2,3) obtain CI szt name news0 where
    n0: "news0 = rc_new CI (fresh_id M) szt (type_alloc_size M (ity CI)) (length (globals M))
              (unat (call_identifier st + 1)) ''klee_make_nondet'' name"
    and st: "set (all_insts M1) =
       subst_inst c (VInst (fresh_id M + 3)) ` {i \<in> set (all_insts M). iid i \<noteq> c} \<union> set news0"
    and wf1: "wf_module M1" and fr: "fresh_id M1 = fresh_id M + 4" and ok1: "cache_ok M1 st1"
    by (rule replaceCall_full)
  have b1: "\<forall>c \<in> snd ` set rest. c < fresh_id M1" using Cons.prems(4) fr by auto
  have b0: "\<forall>s \<in> snd ` set rest. s < fresh_id M" using Cons.prems(4) by auto
  note ih = Cons.IH [OF lp wf1 ok1 b1]
  from replaceCalls_loop_sem [OF lp wf1 b1]
  have bk: "\<forall>i' \<in> set (all_insts M'). iid i' < fresh_id M1 \<longrightarrow>
            (\<exists>i \<in> set (all_insts M1). iid i \<notin> snd ` set rest \<and> redirected (snd ` set rest) i i')"
    by simp
  from replaceCalls_loop_sem [OF Cons.prems(1,2,4)] have dist: "distinct (map snd (x # rest))"
    by simp
  have new0: "fresh_id M \<le> iid i" if "i \<in> set news0" for i
    using that unfolding n0 by (rule rc_new_new)
  show ?case
  proof (intro allI impI ballI)
    fix k u u' j
    assume k: "k < length (x # rest)" and u: "u \<in> set (all_insts M)"
      and u': "u' \<in> set (all_insts M')" and id: "iid u' = iid u"
      and j: "j < length (operands u)" and op: "operands u ! j = VInst (snd ((x # rest) ! k))"
    from fresh_id_gt [OF u] id fr have lt: "iid u' < fresh_id M1" "iid u' < fresh_id M" by simp_all
    with bk u' obtain u1 where u1: "u1 \<in> set (all_insts M1)"
      "redirected (snd ` set rest) u1 u'" by blast
    note rf = redirected_fields [OF u1(2)]
    from rf(1) lt have lt1: "iid u1 < fresh_id M" by simp
    have "u1 \<notin> set news0" using new0 [of u1] lt1 by auto
    with u1(1) st obtain u0 where u0: "u0 \<in> set (all_insts M)"
      "u1 = subst_inst c (VInst (fresh_id M + 3)) u0" by auto
    from u0(2) rf(1) id have "iid u0 = iid u" by simp
    from wf_same_id [OF Cons.prems(2) u0(1) u this] have uu: "u0 = u" .
    have ops1: "operands u1 = map (subst_val c (VInst (fresh_id M + 3))) (operands u)"
      unfolding u0(2) uu by (simp add: subst_inst_def)
    then have len1: "length (operands u1) = length (operands u)" by simp
    show "operands u' ! j = VInst (fresh_id M + 4 * k + 3)"
    proof (cases k)
      case 0
      with op have "operands u ! j = VInst c" by (simp add: x)
      with ops1 j have o1: "operands u1 ! j = VInst (fresh_id M + 3)" by (simp add: subst_val_def)
      have "VInst (fresh_id M + 3) \<notin> VInst ` snd ` set rest" using b0 by auto
      with rf(7) [of j] j len1 o1 have "operands u' ! j = VInst (fresh_id M + 3)" by simp
      with 0 show ?thesis by simp
    next
      case (Suc k')
      with k have k': "k' < length rest" by simp
      from Suc op have op': "operands u ! j = VInst (snd (rest ! k'))" by simp
      from k' have "snd (rest ! k') \<in> set (map snd rest)" by simp
      with dist have "snd (rest ! k') \<noteq> c" by (auto simp: x)
      with ops1 j op' have o1: "operands u1 ! j = VInst (snd (rest ! k'))"
        by (simp add: subst_val_def)
      from ih k' u1(1) u' rf(1) j len1 o1
      have "operands u' ! j = VInst (fresh_id M1 + 4 * k' + 3)" by simp
      with fr Suc show ?thesis by simp
    qed
  qed
qed

subsection \<open>Program order\<close>

text \<open>
  \<open>follows M a b\<close>: in some function body of \<open>M\<close> the instruction with identity \<open>b\<close> comes
  after the instruction with identity \<open>a\<close>.
\<close>

definition after_in :: "nat \<Rightarrow> nat \<Rightarrow> nat list \<Rightarrow> bool" where
  "after_in a b js \<longleftrightarrow> b \<in> set (tl (dropWhile (\<lambda>j. j \<noteq> a) js))"

definition follows :: "module \<Rightarrow> nat \<Rightarrow> nat \<Rightarrow> bool" where
  "follows M a b \<longleftrightarrow> (\<exists>F \<in> set (funcs M). after_in a b (map iid (body F)))"

lemma after_in_Cons:
  "after_in a b (j # js) \<longleftrightarrow> (if j = a then b \<in> set js else after_in a b js)"
  by (simp add: after_in_def)

lemma after_in_skip: "a \<notin> set xs \<Longrightarrow> after_in a b (xs @ ys) \<longleftrightarrow> after_in a b ys"
  by (induction xs) (simp_all add: after_in_Cons)

lemma expand_keeps: "set js \<subseteq> set (concat (map (\<lambda>j. if j = ci then j # N else [j]) js))"
  by (induction js) auto

lemma after_in_expand_keep:
  assumes "after_in a b js" "a \<notin> set N"
  shows "after_in a b (concat (map (\<lambda>j. if j = ci then j # N else [j]) js))"
  using assms(1)
proof (induction js)
  case Nil
  then show ?case by (simp add: after_in_def)
next
  case (Cons j js)
  let ?E = "\<lambda>j. if j = ci then j # N else [j]"
  show ?case
  proof (cases "j = a")
    case True
    with Cons.prems have "b \<in> set js" by (simp add: after_in_Cons)
    with expand_keeps [of js ci N] have "b \<in> set (concat (map ?E js))" by blast
    with True show ?thesis by (simp add: after_in_Cons)
  next
    case False
    with Cons.prems have "after_in a b js" by (simp add: after_in_Cons)
    then have ih: "after_in a b (concat (map ?E js))" by (rule Cons.IH)
    from False assms(2) have "a \<notin> set (?E j)" by simp
    from after_in_skip [OF this] ih show ?thesis by simp
  qed
qed

lemma after_in_expand_new:
  assumes "ci \<in> set js" "b \<in> set N"
  shows "after_in ci b (concat (map (\<lambda>j. if j = ci then j # N else [j]) js))"
  using assms(1)
proof (induction js)
  case Nil
  then show ?case by simp
next
  case (Cons j js)
  show ?case
  proof (cases "j = ci")
    case True
    with assms(2) show ?thesis by (simp add: after_in_Cons)
  next
    case False
    with Cons show ?thesis by (simp add: after_in_Cons)
  qed
qed

lemma ha_expand_ids:
  "map iid (concat (map (ha_expand ci news) xs)) =
   concat (map (\<lambda>j. if j = ci then j # map iid news else [j]) (map iid xs))"
  by (induction xs) (simp_all add: ha_expand_def)

lemma follows_keep:
  assumes fm: "funcs M' = map (body_map (ha_expand ci news)) (funcs M @ extra)"
    and f: "follows M a b" and a: "a \<notin> iid ` set news"
  shows "follows M' a b"
proof -
  from f obtain F where F: "F \<in> set (funcs M)" "after_in a b (map iid (body F))"
    unfolding follows_def by blast
  from a have "a \<notin> set (map iid news)" by simp
  from after_in_expand_keep [OF F(2) this, of ci]
  have "after_in a b (map iid (body (body_map (ha_expand ci news) F)))"
    by (simp add: ha_expand_ids)
  moreover from F(1) have "body_map (ha_expand ci news) F \<in> set (funcs M')"
    unfolding fm by simp
  ultimately show ?thesis unfolding follows_def by blast
qed

lemma follows_new:
  assumes fm: "funcs M' = map (body_map (ha_expand ci news)) (funcs M @ extra)"
    and c: "CI \<in> set (all_insts M)" "iid CI = ci" and b: "b \<in> iid ` set news"
  shows "follows M' ci b"
proof -
  from c(1) obtain F where F: "F \<in> set (funcs M)" "CI \<in> set (body F)"
    unfolding all_insts_def by auto
  with c(2) have "ci \<in> set (map iid (body F))" by auto
  moreover from b have "b \<in> set (map iid news)" by simp
  ultimately have "after_in ci b (map iid (body (body_map (ha_expand ci news) F)))"
    using after_in_expand_new [of ci "map iid (body F)" b "map iid news"]
    by (simp add: ha_expand_ids)
  moreover from F(1) have "body_map (ha_expand ci news) F \<in> set (funcs M')"
    unfolding fm by simp
  ultimately show ?thesis unfolding follows_def by blast
qed

lemma ha_news_call_id: "n + 2 \<in> iid ` set (ha_news CI ci n callee mt g k f)"
  by (simp add: ha_news_def ha_call_def)

lemma handleAllocs_loop_order:
  assumes "handleAllocs_loop M st xs = Inr (M', st')" "wf_module M" "cache_ok M st"
    "\<forall>c \<in> snd ` set xs. c < fresh_id M"
  shows "(\<forall>a b. follows M a b \<longrightarrow> a < fresh_id M \<longrightarrow> follows M' a b) \<and>
         (\<forall>k < length xs. follows M' (snd (xs ! k)) (fresh_id M + 3 * k + 2))"
  using assms
proof (induction xs arbitrary: M st)
  case Nil
  then show ?case by simp
next
  case (Cons x rest)
  obtain l c where x: "x = (l, c)" by (cases x)
  from Cons.prems(1) [unfolded x] obtain M1 st1 where
    ha: "handleAlloc M st c l ''dynalloc'' = Inr (M1, st1)"
    and lp: "handleAllocs_loop M1 st1 rest = Inr (M', st')"
    by (rule handleAllocs_loop_Cons)
  from ha Cons.prems(2,3) obtain CI callee mt extra news0 where
    CI: "CI \<in> set (all_insts M)" "iid CI = c"
    and n0: "news0 = ha_news CI c (fresh_id M) callee mt (length (globals M))
              (unat (alloc_call_identifier st + 1)) ''klee_make_nondet''"
    and fm: "funcs M1 = map (body_map (ha_expand c news0)) (funcs M @ extra)"
    and wf1: "wf_module M1" and fr: "fresh_id M1 = fresh_id M + 3" and ok1: "cache_ok M1 st1"
    by (rule handleAlloc_full)
  have b1: "\<forall>c \<in> snd ` set rest. c < fresh_id M1" using Cons.prems(4) fr by auto
  note ih = Cons.IH [OF lp wf1 ok1 b1]
  from ih have keep1: "\<And>a b. follows M1 a b \<Longrightarrow> a < fresh_id M1 \<Longrightarrow> follows M' a b"
    and ord1: "\<And>k. k < length rest \<Longrightarrow> follows M' (snd (rest ! k)) (fresh_id M1 + 3 * k + 2)"
    by blast+
  have new0: "fresh_id M \<le> iid i" if "i \<in> set news0" for i
    using that unfolding n0 by (rule ha_news_new)
  have K: "follows M' a b" if f: "follows M a b" and a: "a < fresh_id M" for a b
  proof -
    from a new0 have "a \<notin> iid ` set news0" by (auto simp: not_le [symmetric] simp del: not_le)
    from follows_keep [OF fm f this] have "follows M1 a b" .
    with a fr show ?thesis by (intro keep1) simp_all
  qed
  have O: "follows M' (snd ((x # rest) ! k)) (fresh_id M + 3 * k + 2)"
    if k: "k < length (x # rest)" for k
  proof (cases k)
    case 0
    have "fresh_id M + 2 \<in> iid ` set news0" unfolding n0 by (rule ha_news_call_id)
    from follows_new [OF fm CI this] have "follows M1 c (fresh_id M + 2)" .
    moreover from fresh_id_gt [OF CI(1)] CI(2) fr have "c < fresh_id M1" by simp
    ultimately have "follows M' c (fresh_id M + 2)" by (rule keep1)
    with 0 show ?thesis by (simp add: x)
  next
    case (Suc k')
    with k have "k' < length rest" by simp
    from ord1 [OF this] fr Suc show ?thesis by simp
  qed
  from K O show ?case by blast
qed

subsection \<open>The two phases of one run\<close>

lemma runOnModule_sites:
  assumes run: "runOnModule e M = Inr (M', st', b)" and wf: "wf_module M"
  obtains M1 st1 st2 where
    "replaceCalls_loop M st1 (calls_to_replace st') = Inr (M1, st2)"
    "handleAllocs_loop M1 st2 (allocs_to_handle st') = Inr (M', st')"
    "call_identifier st1 = 0" "alloc_call_identifier st2 = static_identifier e"
    "wf_module M1" "wf_module M'"
    "\<forall>c \<in> snd ` set (calls_to_replace st'). c < fresh_id M"
    "\<forall>c \<in> snd ` set (allocs_to_handle st'). c < fresh_id M"
    "fresh_id M1 = fresh_id M + 4 * length (calls_to_replace st')"
    "fresh_id M' = fresh_id M1 + 3 * length (allocs_to_handle st')"
    "length (globals M1) = length (globals M) + length (calls_to_replace st')"
    "length (globals M') = length (globals M1) + length (allocs_to_handle st')"
    "set (all_insts M1) \<subseteq> set (all_insts M')"
    "\<forall>i' \<in> set (all_insts M'). iid i' < fresh_id M1 \<longrightarrow> i' \<in> set (all_insts M1)"
    "\<forall>k < length (calls_to_replace st'). \<exists>news.
        rc_site M st1 (calls_to_replace st') k news \<and> set news \<subseteq> set (all_insts M1)"
    "\<forall>i' \<in> set (all_insts M1). fresh_id M \<le> iid i' \<longrightarrow>
        (\<exists>k < length (calls_to_replace st'). \<exists>news.
           rc_site M st1 (calls_to_replace st') k news \<and> i' \<in> set news \<and>
           set news \<subseteq> set (all_insts M1))"
    "\<forall>k < length (allocs_to_handle st'). \<exists>news.
        ha_site M1 st2 (allocs_to_handle st') k news \<and> set news \<subseteq> set (all_insts M')"
    "\<forall>i' \<in> set (all_insts M'). fresh_id M1 \<le> iid i' \<longrightarrow>
        (\<exists>k < length (allocs_to_handle st'). \<exists>news.
           ha_site M1 st2 (allocs_to_handle st') k news \<and> i' \<in> set news \<and>
           set news \<subseteq> set (all_insts M'))"
    "distinct (map snd (calls_to_replace st'))"
    "\<forall>i' \<in> set (all_insts M1). iid i' < fresh_id M \<longrightarrow>
       (\<exists>i \<in> set (all_insts M). iid i \<notin> snd ` set (calls_to_replace st') \<and>
          redirected (snd ` set (calls_to_replace st')) i i')"
    "\<forall>i \<in> set (all_insts M). iid i \<notin> snd ` set (calls_to_replace st') \<longrightarrow>
       (\<exists>i' \<in> set (all_insts M1). redirected (snd ` set (calls_to_replace st')) i i')"
    "\<forall>k < length (calls_to_replace st'). \<forall>u \<in> set (all_insts M). \<forall>u' \<in> set (all_insts M1).
       iid u' = iid u \<longrightarrow>
       (\<forall>j < length (operands u). operands u ! j = VInst (snd (calls_to_replace st' ! k)) \<longrightarrow>
          operands u' ! j = VInst (fresh_id M + 4 * k + 3))"
    "\<forall>k < length (allocs_to_handle st').
       follows M' (snd (allocs_to_handle st' ! k)) (fresh_id M1 + 3 * k + 2)"
    "cache_ok M st1" "cache_ok M1 st2"
proof -
  from run wf obtain st1 M1 st2 where
    rl: "replaceCalls_loop M st1 (calls_to_replace st1) = Inr (M1, st2)"
    and hl: "handleAllocs_loop M1 st2 (allocs_to_handle st1) = Inr (M', st')"
    and cs: "calls_to_replace st' = calls_to_replace st1"
    and as: "allocs_to_handle st' = allocs_to_handle st1"
    and v: "vms st1 = None" and c0: "call_identifier st1 = 0"
    and a0: "alloc_call_identifier st2 = static_identifier e"
    and b1: "\<forall>c \<in> snd ` set (calls_to_replace st1). c < fresh_id M"
    and b2: "\<forall>c \<in> snd ` set (allocs_to_handle st1). c < fresh_id M"
    and wf1: "wf_module M1" and wf': "wf_module M'" and fr: "fresh_id M \<le> fresh_id M1"
    by (rule runOnModule_facts)
  from v have ok: "cache_ok M st1" by (simp add: cache_ok_def)
  from b2 fr have b2': "\<forall>c \<in> snd ` set (allocs_to_handle st1). c < fresh_id M1" by auto
  note rs = replaceCalls_loop_sites [OF rl wf ok b1]
  from rs have ok2: "cache_ok M1 st2" by simp
  note hs = handleAllocs_loop_sites [OF hl wf1 ok2 b2']
  note hsem = handleAllocs_loop_sem [OF hl wf1]
  from replaceCalls_loop_state [OF rl wf]
  have g1: "length (globals M1) = length (globals M) + length (calls_to_replace st1)" by simp
  note rsem = replaceCalls_loop_sem [OF rl wf b1]
  note ru = replaceCalls_loop_uses [OF rl wf ok b1]
  note ho = handleAllocs_loop_order [OF hl wf1 ok2 b2']
  from handleAllocs_loop_globals [OF hl wf1 b2']
  have g2: "length (globals M') = length (globals M1) + length (allocs_to_handle st1)" by simp
  show thesis
  proof (rule that [of st1 M1 st2])
    show "replaceCalls_loop M st1 (calls_to_replace st') = Inr (M1, st2)" using rl cs by simp
    show "handleAllocs_loop M1 st2 (allocs_to_handle st') = Inr (M', st')" using hl as by simp
    show "\<forall>c \<in> snd ` set (calls_to_replace st'). c < fresh_id M" using b1 cs by simp
    show "\<forall>c \<in> snd ` set (allocs_to_handle st'). c < fresh_id M" using b2 as by simp
    show "fresh_id M1 = fresh_id M + 4 * length (calls_to_replace st')" using rs cs by simp
    show "fresh_id M' = fresh_id M1 + 3 * length (allocs_to_handle st')" using hs as by simp
    show "length (globals M1) = length (globals M) + length (calls_to_replace st')"
      using g1 cs by simp
    show "length (globals M') = length (globals M1) + length (allocs_to_handle st')"
      using g2 as by simp
    show "set (all_insts M1) \<subseteq> set (all_insts M')" using hsem by simp
    show "\<forall>i' \<in> set (all_insts M'). iid i' < fresh_id M1 \<longrightarrow> i' \<in> set (all_insts M1)"
      using hsem by simp
    show "\<forall>k < length (calls_to_replace st'). \<exists>news.
        rc_site M st1 (calls_to_replace st') k news \<and> set news \<subseteq> set (all_insts M1)"
      unfolding cs using rs by simp
    show "\<forall>i' \<in> set (all_insts M1). fresh_id M \<le> iid i' \<longrightarrow>
        (\<exists>k < length (calls_to_replace st'). \<exists>news.
           rc_site M st1 (calls_to_replace st') k news \<and> i' \<in> set news \<and>
           set news \<subseteq> set (all_insts M1))"
      unfolding cs using rs by simp
    show "\<forall>k < length (allocs_to_handle st'). \<exists>news.
        ha_site M1 st2 (allocs_to_handle st') k news \<and> set news \<subseteq> set (all_insts M')"
      unfolding as using hs by simp
    show "\<forall>i' \<in> set (all_insts M'). fresh_id M1 \<le> iid i' \<longrightarrow>
        (\<exists>k < length (allocs_to_handle st'). \<exists>news.
           ha_site M1 st2 (allocs_to_handle st') k news \<and> i' \<in> set news \<and>
           set news \<subseteq> set (all_insts M'))"
      unfolding as using hs by simp
    show "distinct (map snd (calls_to_replace st'))" unfolding cs using rsem by simp
    show "\<forall>i' \<in> set (all_insts M1). iid i' < fresh_id M \<longrightarrow>
       (\<exists>i \<in> set (all_insts M). iid i \<notin> snd ` set (calls_to_replace st') \<and>
          redirected (snd ` set (calls_to_replace st')) i i')"
      unfolding cs using rsem by simp
    show "\<forall>i \<in> set (all_insts M). iid i \<notin> snd ` set (calls_to_replace st') \<longrightarrow>
       (\<exists>i' \<in> set (all_insts M1). redirected (snd ` set (calls_to_replace st')) i i')"
      unfolding cs using rsem by simp
    show "\<forall>k < length (calls_to_replace st'). \<forall>u \<in> set (all_insts M). \<forall>u' \<in> set (all_insts M1).
       iid u' = iid u \<longrightarrow>
       (\<forall>j < length (operands u). operands u ! j = VInst (snd (calls_to_replace st' ! k)) \<longrightarrow>
          operands u' ! j = VInst (fresh_id M + 4 * k + 3))"
      unfolding cs by (rule ru)
    show "\<forall>k < length (allocs_to_handle st').
       follows M' (snd (allocs_to_handle st' ! k)) (fresh_id M1 + 3 * k + 2)"
      unfolding as using ho by simp
  qed (rule c0 a0 wf1 wf' ok ok2)+
qed

lemma runOnModule_changed:
  assumes "runOnModule e M = Inr (M', st', b)"
  shows "b \<longleftrightarrow> calls_to_replace st' \<noteq> [] \<or> allocs_to_handle st' \<noteq> []"
  using assms unfolding runOnModule_def
  by (auto split: sum.splits prod.splits)

lemma rc_new_call:
  assumes "i \<in> set (rc_new CI n szt sz g k f name)" "iop i = Call"
  shows "iid i = n + 2"
    "operands i = [VInst (n + 1), VConstInt szt sz, VGlobalCast g i8ptr, VConstInt (IntTy 32) k, VFunc f]"
  using assms by (auto simp: rc_new_def)

lemma ha_news_call:
  assumes "i \<in> set (ha_news CI ci n callee mt g k f)" "iop i = Call"
  shows "iid i = n + 2"
    "operands i = [VInst n, if callee = ''calloc'' then VInst (n + 1) else operands CI ! 0,
                   VGlobalCast g i8ptr, VConstInt (IntTy 32) k, VFunc f]"
  using assms by (auto simp: ha_news_def ha_call_def ha_mul_def ha_cast_def split: if_splits)

lemma called_of_operands:
  "operands i = [a, b, c, d, VFunc f] \<Longrightarrow> getCalledFunction i = Some f"
  by (simp add: getCalledFunction_def)

lemma reg_info_of_operands:
  assumes "iop i = Call"
    "operands i = [mem, nb, VGlobalCast g t, VConstInt t' k, VFunc ''klee_make_nondet'']"
    "g < length (globals M)"
  shows "reg_info M i = Some (mem, nb, ginit (globals M ! g), k)"
  using assms by (simp add: reg_info_def)

lemma unat_next:
  assumes "k + 1 < 2 ^ 32"
  shows "unat ((0::32 word) + of_nat k + 1) = k + 1"
proof -
  have "(0::32 word) + of_nat k + 1 = of_nat (k + 1)" by simp
  also have "unat (of_nat (k + 1) :: 32 word) = (k + 1) mod 2 ^ 32"
    by (simp only: unat_of_nat) simp
  also have "\<dots> = k + 1" using assms by simp
  finally show ?thesis .
qed

lemma rc_site_call:
  assumes s: "rc_site M st xs k news" and sub: "set news \<subseteq> set (all_insts M')"
    and wf': "wf_module M'"
  obtains r where "get_inst M' (fresh_id M + 4 * k + 2) = Some r" "r \<in> set (all_insts M')"
    "iop r = Call"
    "operands r = [VInst (fresh_id M + 4 * k + 1), operands r ! 1,
                   VGlobalCast (length (globals M) + k) i8ptr,
                   VConstInt (IntTy 32) (unat (call_identifier st + of_nat k + 1)),
                   VFunc ''klee_make_nondet'']"
proof -
  from s obtain CI szt name where
    n: "news = rc_new CI (fresh_id M + 4 * k) szt (type_alloc_size M (ity CI))
                 (length (globals M) + k)
                 (unat (call_identifier st + of_nat k + 1)) ''klee_make_nondet'' name"
    unfolding rc_site_def by blast
  define r where "r = news ! 2"
  have len: "length news = 4" unfolding n by (simp add: rc_new_def)
  then have "r \<in> set news" unfolding r_def by simp
  with sub have rin: "r \<in> set (all_insts M')" by blast
  have id: "iid r = fresh_id M + 4 * k + 2" unfolding r_def n by (simp add: rc_new_def)
  have op: "iop r = Call" unfolding r_def n by (simp add: rc_new_def)
  have ops: "operands r = [VInst (fresh_id M + 4 * k + 1), operands r ! 1,
                   VGlobalCast (length (globals M) + k) i8ptr,
                   VConstInt (IntTy 32) (unat (call_identifier st + of_nat k + 1)),
                   VFunc ''klee_make_nondet'']"
    unfolding r_def n by (simp add: rc_new_def)
  from rin id wf' have "get_inst M' (fresh_id M + 4 * k + 2) = Some r"
    by (simp add: get_inst_Some_iff)
  then show thesis using rin op ops by (rule that)
qed

lemma ha_site_call:
  assumes s: "ha_site M st xs k news" and sub: "set news \<subseteq> set (all_insts M')"
    and wf': "wf_module M'"
  obtains r cast CI callee where
    "get_inst M' (fresh_id M + 3 * k + 2) = Some r" "r \<in> set (all_insts M')" "iop r = Call"
    "operands r = [VInst (fresh_id M + 3 * k), operands r ! 1,
                   VGlobalCast (length (globals M) + k) i8ptr,
                   VConstInt (IntTy 32) (unat (alloc_call_identifier st + of_nat k + 1)),
                   VFunc ''klee_make_nondet'']"
    "cast \<in> set (all_insts M')" "iid cast = fresh_id M + 3 * k" "iop cast = PtrCast"
    "operands cast = [VInst (snd (xs ! k))]"
    "CI \<in> set (all_insts M)" "iid CI = snd (xs ! k)" "getCalledFunction CI = Some callee"
    "callee = ''calloc'' \<longrightarrow> 2 \<le> length (operands CI)"
    "callee = ''calloc'' \<longrightarrow>
       (\<exists>mul \<in> set (all_insts M'). iid mul = fresh_id M + 3 * k + 1 \<and> iop mul = Mul \<and>
          operands mul = [operands CI ! 0, operands CI ! 1] \<and> operands r ! 1 = VInst (iid mul))"
    "callee \<noteq> ''calloc'' \<longrightarrow> operands r ! 1 = operands CI ! 0"
proof -
  from s obtain CI callee mt where CI: "CI \<in> set (all_insts M)" "iid CI = snd (xs ! k)"
      "getCalledFunction CI = Some callee" "callee = ''calloc'' \<longrightarrow> 2 \<le> length (operands CI)"
    and n: "news = ha_news CI (snd (xs ! k)) (fresh_id M + 3 * k) callee mt (length (globals M) + k)
                 (unat (alloc_call_identifier st + of_nat k + 1)) ''klee_make_nondet''"
    unfolding ha_site_def by blast
  define nb where "nb = (if callee = ''calloc'' then VInst (fresh_id M + 3 * k + 1) else operands CI ! 0)"
  define r where "r = ha_call (fresh_id M + 3 * k) nb (length (globals M) + k)
      (unat (alloc_call_identifier st + of_nat k + 1)) ''klee_make_nondet''"
  define cast where "cast = ha_cast (snd (xs ! k)) (fresh_id M + 3 * k)"
  have "r \<in> set news" "cast \<in> set news"
    unfolding n r_def nb_def cast_def by (simp_all add: ha_news_def)
  with sub have rin: "r \<in> set (all_insts M')" and cin: "cast \<in> set (all_insts M')" by blast+
  have id: "iid r = fresh_id M + 3 * k + 2" and op: "iop r = Call"
    unfolding r_def by (simp_all add: ha_call_def)
  have ops: "operands r = [VInst (fresh_id M + 3 * k), operands r ! 1,
                   VGlobalCast (length (globals M) + k) i8ptr,
                   VConstInt (IntTy 32) (unat (alloc_call_identifier st + of_nat k + 1)),
                   VFunc ''klee_make_nondet'']"
    unfolding r_def by (simp add: ha_call_def)
  have r1: "operands r ! 1 = nb" unfolding r_def by (simp add: ha_call_def)
  have cf: "iid cast = fresh_id M + 3 * k" "iop cast = PtrCast"
    "operands cast = [VInst (snd (xs ! k))]"
    unfolding cast_def by (simp_all add: ha_cast_def)
  from rin id wf' have g: "get_inst M' (fresh_id M + 3 * k + 2) = Some r"
    by (simp add: get_inst_Some_iff)
  have mul: "callee = ''calloc'' \<longrightarrow>
       (\<exists>mul \<in> set (all_insts M'). iid mul = fresh_id M + 3 * k + 1 \<and> iop mul = Mul \<and>
          operands mul = [operands CI ! 0, operands CI ! 1] \<and> operands r ! 1 = VInst (iid mul))"
  proof
    assume c: "callee = ''calloc''"
    then have "ha_mul CI (fresh_id M + 3 * k) mt \<in> set news" unfolding n by (simp add: ha_news_def)
    with sub have "ha_mul CI (fresh_id M + 3 * k) mt \<in> set (all_insts M')" by blast
    moreover have "operands r ! 1 = VInst (iid (ha_mul CI (fresh_id M + 3 * k) mt))"
      unfolding r1 nb_def using c by (simp add: ha_mul_def)
    ultimately show "\<exists>mul \<in> set (all_insts M'). iid mul = fresh_id M + 3 * k + 1 \<and> iop mul = Mul \<and>
          operands mul = [operands CI ! 0, operands CI ! 1] \<and> operands r ! 1 = VInst (iid mul)"
      by (intro bexI [of _ "ha_mul CI (fresh_id M + 3 * k) mt"]) (simp_all add: ha_mul_def)
  qed
  have nomul: "callee \<noteq> ''calloc'' \<longrightarrow> operands r ! 1 = operands CI ! 0"
    unfolding r1 nb_def by simp
  show thesis by (rule that [OF g rin op ops cin cf CI mul nomul])
qed

lemma rc_site_slot:
  assumes s: "rc_site M st xs k news" and sub: "set news \<subseteq> set (all_insts M')"
    and wf': "wf_module M'"
  obtains CI al ld where "CI \<in> set (all_insts M)" "iid CI = snd (xs ! k)" "ity CI \<noteq> VoidTy"
    "al \<in> set (all_insts M')" "iid al = fresh_id M + 4 * k" "iop al = Alloca (ity CI)"
    "ity al = PtrTy (ity CI)"
    "ld \<in> set (all_insts M')" "iid ld = fresh_id M + 4 * k + 3" "iop ld = Load"
    "operands ld = [VInst (iid al)]" "ity ld = ity CI"
proof -
  from s obtain CI szt name where CI: "CI \<in> set (all_insts M)" "iid CI = snd (xs ! k)"
      "ity CI \<noteq> VoidTy"
    and n: "news = rc_new CI (fresh_id M + 4 * k) szt (type_alloc_size M (ity CI))
                 (length (globals M) + k)
                 (unat (call_identifier st + of_nat k + 1)) ''klee_make_nondet'' name"
    unfolding rc_site_def by blast
  define al where "al = news ! 0"
  define ld where "ld = news ! 3"
  have len: "length news = 4" unfolding n by (simp add: rc_new_def)
  then have "al \<in> set news" "ld \<in> set news" unfolding al_def ld_def by simp_all
  with sub have in': "al \<in> set (all_insts M')" "ld \<in> set (all_insts M')" by blast+
  have a: "iid al = fresh_id M + 4 * k" "iop al = Alloca (ity CI)" "ity al = PtrTy (ity CI)"
    unfolding al_def n by (simp_all add: rc_new_def)
  have l: "iid ld = fresh_id M + 4 * k + 3" "iop ld = Load" "operands ld = [VInst (iid al)]"
    "ity ld = ity CI"
    unfolding al_def ld_def n by (simp_all add: rc_new_def)
  show thesis by (rule that [OF CI in'(1) a in'(2) l])
qed

subsection \<open>No use of a replaced call is left\<close>

definition unread :: "nat \<Rightarrow> module \<Rightarrow> bool" where
  "unread c M \<longleftrightarrow> (\<forall>u \<in> set (all_insts M). VInst c \<notin> set (operands u))"

lemma subst_inst_unread:
  assumes "v \<noteq> VInst c" "c' = c \<or> VInst c \<notin> set (operands i)"
  shows "VInst c \<notin> set (operands (subst_inst c' v i))"
  using assms by (auto simp: subst_inst_def subst_val_def)

lemma replaceCall_unread:
  assumes rc: "replaceCall M st c' l var = Inr (M', st')" and wf: "wf_module M"
    and ok: "cache_ok M st" and c: "c < fresh_id M" and u: "c' = c \<or> unread c M"
  shows "unread c M'"
proof -
  from rc wf ok obtain CI szt name news where
    n: "news = rc_new CI (fresh_id M) szt (type_alloc_size M (ity CI)) (length (globals M))
              (unat (call_identifier st + 1)) ''klee_make_nondet'' name"
    and st: "set (all_insts M') =
       subst_inst c' (VInst (fresh_id M + 3)) ` {i \<in> set (all_insts M). iid i \<noteq> c'} \<union> set news"
    by (rule replaceCall_full)
  from c have v: "VInst (fresh_id M + 3) \<noteq> VInst c" by simp
  from c have b: "\<forall>s \<in> {c}. s < fresh_id M" by simp
  show ?thesis unfolding unread_def
  proof
    fix i' assume "i' \<in> set (all_insts M')"
    with st have "(\<exists>i \<in> set (all_insts M). i' = subst_inst c' (VInst (fresh_id M + 3)) i) \<or>
      i' \<in> set news" by auto
    then show "VInst c \<notin> set (operands i')"
    proof
      assume "\<exists>i \<in> set (all_insts M). i' = subst_inst c' (VInst (fresh_id M + 3)) i"
      then obtain i where i: "i \<in> set (all_insts M)"
        "i' = subst_inst c' (VInst (fresh_id M + 3)) i" by blast
      from u i(1) have "c' = c \<or> VInst c \<notin> set (operands i)" by (auto simp: unread_def)
      from subst_inst_unread [OF v this] i(2) show ?thesis by simp
    next
      assume i': "i' \<in> set news"
      show ?thesis
      proof
        assume "VInst c \<in> set (operands i')"
        from rc_new_operands [OF i' [unfolded n] this b] show False by simp
      qed
    qed
  qed
qed

lemma replaceCalls_loop_keeps_unread:
  assumes "replaceCalls_loop M st xs = Inr (M', st')" "wf_module M" "cache_ok M st"
    "c < fresh_id M" "unread c M"
  shows "unread c M'"
  using assms
proof (induction xs arbitrary: M st)
  case Nil
  then show ?case by simp
next
  case (Cons x rest)
  obtain l c' where x: "x = (l, c')" by (cases x)
  from Cons.prems(1) [unfolded x] obtain M1 st1 where
    rc: "replaceCall M st c' l (line_var st l) = Inr (M1, st1)"
    and lp: "replaceCalls_loop M1 st1 rest = Inr (M', st')"
    unfolding line_var_def by (rule replaceCalls_loop_Cons)
  from rc Cons.prems(2,3) obtain CI szt name news where
    wf1: "wf_module M1" and fr: "fresh_id M1 = fresh_id M + 4" and ok1: "cache_ok M1 st1"
    by (rule replaceCall_full)
  from replaceCall_unread [OF rc Cons.prems(2,3,4)] Cons.prems(5) have u1: "unread c M1" by simp
  from Cons.prems(4) fr have "c < fresh_id M1" by simp
  then show ?case using u1 by (rule Cons.IH [OF lp wf1 ok1])
qed

lemma replaceCalls_loop_unread:
  assumes "replaceCalls_loop M st xs = Inr (M', st')" "wf_module M" "cache_ok M st"
    "\<forall>c \<in> snd ` set xs. c < fresh_id M"
  shows "\<forall>c \<in> snd ` set xs. unread c M'"
  using assms
proof (induction xs arbitrary: M st)
  case Nil
  then show ?case by simp
next
  case (Cons x rest)
  obtain l c' where x: "x = (l, c')" by (cases x)
  from Cons.prems(1) [unfolded x] obtain M1 st1 where
    rc: "replaceCall M st c' l (line_var st l) = Inr (M1, st1)"
    and lp: "replaceCalls_loop M1 st1 rest = Inr (M', st')"
    unfolding line_var_def by (rule replaceCalls_loop_Cons)
  from rc Cons.prems(2,3) obtain CI szt name news where
    wf1: "wf_module M1" and fr: "fresh_id M1 = fresh_id M + 4" and ok1: "cache_ok M1 st1"
    by (rule replaceCall_full)
  from Cons.prems(4) have c': "c' < fresh_id M" by (simp add: x)
  have b1: "\<forall>c \<in> snd ` set rest. c < fresh_id M1" using Cons.prems(4) fr by auto
  from replaceCall_unread [OF rc Cons.prems(2,3) c'] have u1: "unread c' M1" by simp
  from c' fr have "c' < fresh_id M1" by simp
  then have A: "unread c' M'" using u1 by (rule replaceCalls_loop_keeps_unread [OF lp wf1 ok1])
  from Cons.IH [OF lp wf1 ok1 b1] have B: "\<forall>c \<in> snd ` set rest. unread c M'" .
  from A B show ?case by (simp add: x)
qed

lemma ha_news_unread:
  assumes i: "i \<in> set (ha_news CI ci n callee mt g k f)"
    and c: "c < n" "c \<noteq> ci" and u: "VInst c \<notin> set (operands CI)"
    and ne: "operands CI \<noteq> []" and two: "callee = ''calloc'' \<longrightarrow> 2 \<le> length (operands CI)"
  shows "VInst c \<notin> set (operands i)"
proof -
  from ne have o0: "operands CI ! 0 \<in> set (operands CI)" by simp
  with u have n0: "operands CI ! 0 \<noteq> VInst c" by metis
  show ?thesis
  proof (cases "callee = ''calloc''")
    case True
    with two have "operands CI ! 1 \<in> set (operands CI)" by simp
    with u have n1: "operands CI ! 1 \<noteq> VInst c" by metis
    from i True c n0 n1 show ?thesis
      by (auto simp: ha_news_def ha_mul_def ha_cast_def ha_call_def)
  next
    case False
    with i c n0 show ?thesis
      by (auto simp: ha_news_def ha_cast_def ha_call_def)
  qed
qed

lemma handleAllocs_loop_unread:
  assumes "handleAllocs_loop M st xs = Inr (M', st')" "wf_module M" "cache_ok M st"
    "c < fresh_id M" "c \<notin> iid ` set (all_insts M)" "unread c M"
  shows "unread c M'"
  using assms
proof (induction xs arbitrary: M st)
  case Nil
  then show ?case by simp
next
  case (Cons x rest)
  obtain l c' where x: "x = (l, c')" by (cases x)
  from Cons.prems(1) [unfolded x] obtain M1 st1 where
    ha: "handleAlloc M st c' l ''dynalloc'' = Inr (M1, st1)"
    and lp: "handleAllocs_loop M1 st1 rest = Inr (M', st')"
    by (rule handleAllocs_loop_Cons)
  from ha Cons.prems(2,3) obtain CI callee mt news0 where
    CI: "CI \<in> set (all_insts M)" "iid CI = c'" "getCalledFunction CI = Some callee"
      "callee = ''calloc'' \<longrightarrow> 2 \<le> length (operands CI)"
    and n0: "news0 = ha_news CI c' (fresh_id M) callee mt (length (globals M))
              (unat (alloc_call_identifier st + 1)) ''klee_make_nondet''"
    and st: "set (all_insts M1) = set (all_insts M) \<union> set news0"
    and wf1: "wf_module M1" and fr: "fresh_id M1 = fresh_id M + 3" and ok1: "cache_ok M1 st1"
    by (rule handleAlloc_full)
  from CI(1,2) Cons.prems(5) have ne: "c \<noteq> c'" by auto
  from CI(3) have nonempty: "operands CI \<noteq> []" by (auto simp: getCalledFunction_def)
  from Cons.prems(6) CI(1) have uc: "VInst c \<notin> set (operands CI)" by (simp add: unread_def)
  have new_ok: "VInst c \<notin> set (operands i)" if "i \<in> set news0" for i
    using that [unfolded n0] Cons.prems(4) ne uc nonempty CI(4) by (rule ha_news_unread)
  have u1: "unread c M1"
    unfolding unread_def st using Cons.prems(6) new_ok by (auto simp: unread_def)
  have "fresh_id M \<le> iid i" if "i \<in> set news0" for i
    using that unfolding n0 by (rule ha_news_new)
  with Cons.prems(4,5) st have nin: "c \<notin> iid ` set (all_insts M1)" by fastforce
  from Cons.prems(4) fr have "c < fresh_id M1" by simp
  from Cons.IH [OF lp wf1 ok1 this nin u1] show ?case .
qed



section \<open>Scenarios\<close>

text \<open>
  Function \<^verbatim>\<open>foo\<close> calls \<^verbatim>\<open>__VERIFIER_nondet_int\<close> at line 10 and uses the result; line 10
  of the source is \<^verbatim>\<open>int x = __VERIFIER_nondet_int();\<close>.
\<close>

definition nondet_decl :: func where
  "nondet_decl = \<lparr>fname = ''__VERIFIER_nondet_int'', ret_ty = IntTy 32, param_tys = [], body = []\<rparr>"

definition nondet_call :: "nat \<Rightarrow> nat option \<Rightarrow> inst" where
  "nondet_call i l =
     \<lparr>iid = i, iop = Call, operands = [VFunc ''__VERIFIER_nondet_int''], ity = IntTy 32,
      iname = [], dbg_line = l, metadata = [], attrs = []\<rparr>"

definition use_of :: "nat \<Rightarrow> val list \<Rightarrow> inst" where
  "use_of i vs =
     \<lparr>iid = i, iop = Other 0, operands = vs, ity = VoidTy, iname = [], dbg_line = None,
      metadata = [], attrs = []\<rparr>"

definition foo_module :: module where
  "foo_module =
     \<lparr>funcs = [nondet_decl,
               \<lparr>fname = ''foo'', ret_ty = IntTy 32, param_tys = [],
                body = [nondet_call 1 (Some 10), use_of 2 [VInst 1]]\<rparr>],
      globals = [], pointer_bits = 64, type_alloc_size = (\<lambda>t. 4)\<rparr>"

definition source_with_line10 :: "string \<Rightarrow> env" where
  "source_with_line10 text =
     \<lparr>source_name = ''a.c'',
      file_system = (\<lambda>p. if p = ''a.c''
                          then Some (replicate 9 (CHR 0x0A) @ text @ [CHR 0x0A]) else None),
      ndebug = False, static_identifier = 0\<rparr>"


text \<open>The same function whose call has no debug location.\<close>

definition foo_module_nodebug :: module where
  "foo_module_nodebug =
     \<lparr>funcs = [nondet_decl,
               \<lparr>fname = ''foo'', ret_ty = IntTy 32, param_tys = [],
                body = [nondet_call 1 None, use_of 2 [VInst 1]]\<rparr>],
      globals = [], pointer_bits = 64, type_alloc_size = (\<lambda>t. 4)\<rparr>"

text \<open>
  Function \<^verbatim>\<open>bar\<close> calls the declared allocation function \<open>callee\<close> with the arguments
  \<open>args\<close> and uses the pointer.
\<close>

definition alloc_decl :: "string \<Rightarrow> ty list \<Rightarrow> func" where
  "alloc_decl callee tys = \<lparr>fname = callee, ret_ty = i8ptr, param_tys = tys, body = []\<rparr>"

definition alloc_call :: "nat \<Rightarrow> string \<Rightarrow> val list \<Rightarrow> nat option \<Rightarrow> inst" where
  "alloc_call i callee args l =
     \<lparr>iid = i, iop = Call, operands = args @ [VFunc callee], ity = i8ptr,
      iname = [], dbg_line = l, metadata = [], attrs = []\<rparr>"

definition bar_module :: "string \<Rightarrow> val list \<Rightarrow> nat option \<Rightarrow> module" where
  "bar_module callee args l =
     \<lparr>funcs = [alloc_decl callee (map (\<lambda>_. IntTy 64) args),
               \<lparr>fname = ''bar'', ret_ty = VoidTy, param_tys = [IntTy 64],
                body = [alloc_call 1 callee args l, use_of 2 [VInst 1]]\<rparr>],
      globals = [], pointer_bits = 64, type_alloc_size = (\<lambda>t. 4)\<rparr>"

text \<open>No source file can be opened.\<close>

definition no_source :: "bool \<Rightarrow> env" where
  "no_source nd = \<lparr>source_name = ''a.c'', file_system = (\<lambda>p. None), ndebug = nd,
                  static_identifier = 0\<rparr>"

definition registered_names :: "env \<Rightarrow> module \<Rightarrow> (string \<times> nat) list option" where
  "registered_names e M =
     map_option (\<lambda>M'. map (\<lambda>(mem, nbytes, name, k). (name, k)) (registrations M'))
       (result_module (runOnModule e M))"

text \<open>Two calls of \<^verbatim>\<open>__VERIFIER_nondet_int\<close> on line 10 of \<^verbatim>\<open>foo\<close>.\<close>

definition foo2_module :: module where
  "foo2_module =
     \<lparr>funcs = [nondet_decl,
               \<lparr>fname = ''foo'', ret_ty = IntTy 32, param_tys = [],
                body = [nondet_call 1 (Some 10), nondet_call 2 (Some 10),
                        use_of 3 [VInst 1, VInst 2]]\<rparr>],
      globals = [], pointer_bits = 64, type_alloc_size = (\<lambda>t. 4)\<rparr>"


definition result_insts :: "env \<Rightarrow> module \<Rightarrow> (nat \<times> opcode \<times> val list) list option" where
  "result_insts e M =
     map_option (\<lambda>M'. map (\<lambda>i. (iid i, iop i, operands i)) (all_insts M'))
       (result_module (runOnModule e M))"

definition registered_sizes :: "env \<Rightarrow> module \<Rightarrow> val list option" where
  "registered_sizes e M =
     map_option (\<lambda>M'. map (\<lambda>(mem, nbytes, name, k). nbytes) (registrations M'))
       (result_module (runOnModule e M))"


section \<open>The claims\<close>

text \<open>
  C7.  On every line the extractor of the code, \<open>getName\<close>, gives what the specification
  describes (\<open>getName_spec\<close>): the token tracked before the first \<open>=\<close> token when that
  token exists, the tracked token is not empty and the next token starts with
  \<^verbatim>\<open>__VERIFIER_nondet_\<close>, and \<^verbatim>\<open>--\<close> otherwise.  For the line
  \<^verbatim>\<open>int x = __VERIFIER_nondet_int();\<close> at line 10 of function \<^verbatim>\<open>foo\<close> the pass registers
  the name \<^verbatim>\<open>foo:x:10\<close>, with identifier 1.
\<close>

theorem C7_getName_extractor:
  "getName line = getName_spec line \<and>
   getName ''int x = __VERIFIER_nondet_int();'' = ''x'' \<and>
   map_option (\<lambda>M. map (\<lambda>(mem, nbytes, name, k). (name, k)) (registrations M))
     (result_module (runOnModule (source_with_line10 ''int x = __VERIFIER_nondet_int();'') foo_module))
     = Some [(''foo:x:10'', 1)]"
proof (intro conjI)
  show "getName line = getName_spec line" by (rule getName_refines)
  show "getName ''int x = __VERIFIER_nondet_int();'' = ''x''" by code_simp
  show "map_option (\<lambda>M. map (\<lambda>(mem, nbytes, name, k). (name, k)) (registrations M))
     (result_module (runOnModule (source_with_line10 ''int x = __VERIFIER_nondet_int();'') foo_module))
     = Some [(''foo:x:10'', 1)]" by code_simp
qed

theorem C7_getName_extractor_witness:
  "getName_spec ''y = __VERIFIER_nondet_char();'' = ''y'' \<and>
   getName_spec ''y = (char) __VERIFIER_nondet_char();'' = ''--''"
proof -
  have "getName ''y = __VERIFIER_nondet_char();'' = ''y''"
    and "getName ''y = (char) __VERIFIER_nondet_char();'' = ''--''"
    by code_simp+
  then show ?thesis
    using C7_getName_extractor [of "''y = __VERIFIER_nondet_char();''"]
      C7_getName_extractor [of "''y = (char) __VERIFIER_nondet_char();''"]
    by simp
qed

text \<open>
  C5.  As stated the claim fails: when no collected call site carries a debug line,
  \<^verbatim>\<open>mapLines\<close> returns before it opens the source file, so that the path cannot be
  opened is never noticed.  Here no file can be opened and an allocation call without
  debug location is augmented all the same.
\<close>

theorem C5_unreadable_source_counterexample:
  "file_system (no_source False) (source_name (no_source False)) = None \<and>
   registered_names (no_source False) (bar_module ''malloc'' [VConstInt (IntTy 64) 40] None) =
     Some [(''bar:dynalloc:0'', 1)]"
  by code_simp

text \<open>
  C5, amended.  If the configured source path cannot be opened and the collector recorded
  a line number (some collected call site carries a debug line), the pass stops with the
  diagnostic naming the path, and the program unit is as it was given: nothing was
  rewritten.
\<close>

theorem C5_unreadable_source_aborts:
  assumes "file_system e (source_name e) = None" and "lines_nums (collect e M) \<noteq> []"
  shows "runOnModule e M = Inl (Abort (''Couldn't open file: '' @ source_name e @ [CHR 0x0A]), M)"
  using assms by (simp add: runOnModule_def mapLines_def)

theorem C5_unreadable_source_aborts_witness:
  "runOnModule (no_source False) foo_module =
     Inl (Abort (''Couldn't open file: a.c'' @ [CHR 0x0A]), foo_module)"
proof -
  have 1: "file_system (no_source False) (source_name (no_source False)) = None"
    by (simp add: no_source_def)
  have 2: "lines_nums (collect (no_source False) foo_module) \<noteq> []" by code_simp
  from C5_unreadable_source_aborts [OF 1 2] show ?thesis by (simp add: no_source_def)
qed

text \<open>
  C6.  A single call of \<^verbatim>\<open>__VERIFIER_nondet_int\<close> without debug location: no line number is
  recorded, and \<^verbatim>\<open>mapLines\<close> asserts that then there is no call to replace.  With
  assertions compiled in the pass stops there; with \<^verbatim>\<open>NDEBUG\<close> the site is rewritten under
  the name \<^verbatim>\<open>foo::0\<close>, as the claim says.
\<close>

theorem C6_no_debug_line_assertion:
  "runOnModule (no_source False) foo_module_nodebug =
     Inl (AssertionFailed ''calls_to_replace.empty()'', foo_module_nodebug) \<and>
   registered_names (no_source True) foo_module_nodebug = Some [(''foo::0'', 1)]"
proof
  have "mapLines (no_source False) (collect (no_source False) foo_module_nodebug) =
          Inl (AssertionFailed ''calls_to_replace.empty()'')"
    by code_simp
  then show "runOnModule (no_source False) foo_module_nodebug =
     Inl (AssertionFailed ''calls_to_replace.empty()'', foo_module_nodebug)"
    by (simp add: runOnModule_def)
  show "registered_names (no_source True) foo_module_nodebug = Some [(''foo::0'', 1)]"
    by code_simp
qed

theorem C6_no_debug_line_assertion_witness:
  "registered_names (no_source False) foo_module_nodebug = None"
  using C6_no_debug_line_assertion by (simp add: registered_names_def result_module_def)

text \<open>
  C8.  As stated the claim fails: a line that is in the line map and shows no assignment
  pattern gives the variable segment \<^verbatim>\<open>--\<close>, not the empty string.
\<close>

theorem C8_variable_segment_counterexample:
  "getName_spec ''if (__VERIFIER_nondet_int()) {'' = ''--'' \<and>
   registered_names (source_with_line10 ''if (__VERIFIER_nondet_int()) {'') foo_module =
     Some [(''foo:--:10'', 1)]"
  by code_simp

text \<open>
  C8, amended.  For the \<open>k\<close>-th NondetReplace site, at line \<open>l\<close> in function \<open>F\<close>, the name
  constant the pass creates (the \<open>k\<close>-th global it adds) is \<open>F:V:l\<close> where \<open>V\<close> is the
  empty string when the line map has no text for \<open>l\<close>, and otherwise what the extractor
  gives for that text: the assigned variable, or \<^verbatim>\<open>--\<close> when no assignment pattern is
  recognized.
\<close>

theorem C8_variable_segment:
  assumes run: "runOnModule e M = Inr (M', st', b)" and wf: "wf_module M"
    and k: "k < length (calls_to_replace st')" and site: "calls_to_replace st' ! k = (l, c)"
  shows "\<exists>F. get_parent M c = Some F \<and>
           ginit (globals M' ! (length (globals M) + k)) =
             fname F @ '':'' @
             (case map_of (lines st') l of None \<Rightarrow> [] | Some text \<Rightarrow> getName_spec text) @
             '':'' @ to_string l"
proof -
  from run wf obtain st1 M1 st2 where
    rl: "replaceCalls_loop M st1 (calls_to_replace st1) = Inr (M1, st2)"
    and hl: "handleAllocs_loop M1 st2 (allocs_to_handle st1) = Inr (M', st')"
    and cs: "calls_to_replace st' = calls_to_replace st1"
    and ln: "lines st' = lines st1"
    and b1: "\<forall>c \<in> snd ` set (calls_to_replace st1). c < fresh_id M"
    and b2: "\<forall>c \<in> snd ` set (allocs_to_handle st1). c < fresh_id M"
    and sub: "snd ` set (calls_to_replace st1) \<subseteq> iid ` set (all_insts M)"
    and wf1: "wf_module M1" and fr: "fresh_id M \<le> fresh_id M1"
    by (rule runOnModule_facts)
  from b2 fr have b2': "\<forall>c \<in> snd ` set (allocs_to_handle st1). c < fresh_id M1" by auto
  note g1 = replaceCalls_loop_globals [OF rl wf b1]
  note g2 = handleAllocs_loop_globals [OF hl wf1 b2']
  from k cs have k1: "k < length (calls_to_replace st1)" by simp
  from k1 site cs have "(l, c) \<in> set (calls_to_replace st1)" by (metis nth_mem)
  with sub have "c \<in> iid ` set (all_insts M)" by force
  then obtain F where F: "get_parent M c = Some F" using get_parent_exists by blast
  have "globals M' ! (length (globals M) + k) =
        name_global (site_name (the (parent_name M c)) (line_var st1 l) l)"
    using k1 site cs by (simp add: g2 g1 nth_append)
  with F have "ginit (globals M' ! (length (globals M) + k)) =
               site_name (fname F) (line_var st1 l) l"
    by (simp add: name_global_def parent_name_def)
  with F show ?thesis
    by (auto simp: site_name_def line_var_def ln getName_refines split: option.splits)
qed

theorem C8_variable_segment_witness:
  "ginit (globals (fst (projr (runOnModule
      (source_with_line10 ''if (__VERIFIER_nondet_int()) {'') foo_module))) ! 0) = ''foo:--:10''"
proof -
  let ?e = "source_with_line10 ''if (__VERIFIER_nondet_int()) {''"
  let ?r = "runOnModule ?e foo_module"
  have r: "\<not> isl ?r" by code_simp
  have wf: "wf_module foo_module" by code_simp
  have st: "calls_to_replace (fst (snd (projr ?r))) = [(10, 1)]" by code_simp
  have ln: "lines (fst (snd (projr ?r))) = [(10, ''if (__VERIFIER_nondet_int()) {'')]"
    by code_simp
  have gp: "map_option fname (get_parent foo_module 1) = Some ''foo''" by code_simp
  have gn: "getName_spec ''if (__VERIFIER_nondet_int()) {'' = ''--''" by code_simp
  have ts: "to_string 10 = ''10''" by code_simp
  have g0: "globals foo_module = []" by (simp add: foo_module_def)
  from C8_variable_segment [OF run_result [OF r] wf, of 0 10 1] st ln gp gn ts g0
  show ?thesis by auto
qed


text \<open>
  C9.  A run that returns adds to the functions of the module at most one function, the
  declaration \<^verbatim>\<open>klee_make_nondet\<close>, and only when the module had no function of that
  name; after a run that rewrote something the cache holds that function, and every call
  instruction the run created, in either phase, calls it.
\<close>

theorem C9_single_declaration:
  assumes run: "runOnModule e M = Inr (M', st', b)" and wf: "wf_module M"
  shows "(\<exists>extra. map fname (funcs M') = map fname (funcs M) @ extra \<and>
            (extra = [] \<or> extra = [''klee_make_nondet'']) \<and>
            (extra \<noteq> [] \<longrightarrow> ''klee_make_nondet'' \<notin> fname ` set (funcs M))) \<and>
         (b \<longrightarrow> vms st' = Some ''klee_make_nondet'' \<and>
                ''klee_make_nondet'' \<in> fname ` set (funcs M')) \<and>
         (\<forall>r \<in> set (all_insts M'). fresh_id M \<le> iid r \<longrightarrow> iop r = Call \<longrightarrow>
            getCalledFunction r = Some ''klee_make_nondet'')"
proof (intro conjI)
  from run wf obtain st1 M1 st2 where
    rl: "replaceCalls_loop M st1 (calls_to_replace st1) = Inr (M1, st2)"
    and hl: "handleAllocs_loop M1 st2 (allocs_to_handle st1) = Inr (M', st')"
    and cs: "calls_to_replace st' = calls_to_replace st1"
    and as: "allocs_to_handle st' = allocs_to_handle st1"
    and v: "vms st1 = None" and wf1: "wf_module M1"
    by (rule runOnModule_facts)
  from v have ok: "cache_ok M st1" by (simp add: cache_ok_def)
  from replaceCalls_loop_cache [OF rl wf ok]
  have ok2: "cache_ok M1 st2" and d1: "decl_added M st1 M1" by simp_all
  from handleAllocs_loop_cache [OF hl wf1 ok2]
  have ok': "cache_ok M' st'" and d2: "decl_added M1 st2 M'" by simp_all
  note s1 = replaceCalls_loop_state [OF rl wf]
  note s2 = handleAllocs_loop_state [OF hl wf1]
  have d: "decl_added M st1 M'"
  proof (cases "calls_to_replace st1 = []")
    case True
    with rl have "M1 = M" "st2 = st1" by simp_all
    with d2 show ?thesis by simp
  next
    case False
    with s1 have "vms st2 \<noteq> None" by simp
    with d1 d2 show ?thesis by (rule decl_added_trans)
  qed
  then show "\<exists>extra. map fname (funcs M') = map fname (funcs M) @ extra \<and>
            (extra = [] \<or> extra = [''klee_make_nondet'']) \<and>
            (extra \<noteq> [] \<longrightarrow> ''klee_make_nondet'' \<notin> fname ` set (funcs M))"
    unfolding decl_added_def by blast
  show "b \<longrightarrow> vms st' = Some ''klee_make_nondet'' \<and>
                ''klee_make_nondet'' \<in> fname ` set (funcs M')"
  proof
    assume b
    with runOnModule_changed [OF run] cs as
    have "calls_to_replace st1 \<noteq> [] \<or> allocs_to_handle st1 \<noteq> []" by simp
    with s1 s2 have "vms st' \<noteq> None" by (cases "allocs_to_handle st1 = []") auto
    with ok' show "vms st' = Some ''klee_make_nondet'' \<and>
                ''klee_make_nondet'' \<in> fname ` set (funcs M')"
      by (simp add: cache_ok_def)
  qed
next
  show "\<forall>r \<in> set (all_insts M'). fresh_id M \<le> iid r \<longrightarrow> iop r = Call \<longrightarrow>
            getCalledFunction r = Some ''klee_make_nondet''"
  proof (rule runOnModule_sites [OF run wf])
    fix M1 st1 st2
    assume bk: "\<forall>i' \<in> set (all_insts M'). iid i' < fresh_id M1 \<longrightarrow> i' \<in> set (all_insts M1)"
      and n1: "\<forall>i' \<in> set (all_insts M1). fresh_id M \<le> iid i' \<longrightarrow>
        (\<exists>k < length (calls_to_replace st'). \<exists>news.
           rc_site M st1 (calls_to_replace st') k news \<and> i' \<in> set news \<and>
           set news \<subseteq> set (all_insts M1))"
      and n2: "\<forall>i' \<in> set (all_insts M'). fresh_id M1 \<le> iid i' \<longrightarrow>
        (\<exists>k < length (allocs_to_handle st'). \<exists>news.
           ha_site M1 st2 (allocs_to_handle st') k news \<and> i' \<in> set news \<and>
           set news \<subseteq> set (all_insts M'))"
    show ?thesis
    proof (intro ballI impI)
      fix r assume r: "r \<in> set (all_insts M')" "fresh_id M \<le> iid r" "iop r = Call"
      show "getCalledFunction r = Some ''klee_make_nondet''"
      proof (cases "iid r < fresh_id M1")
        case True
        with bk r(1) have "r \<in> set (all_insts M1)" by blast
        with n1 r(2) obtain k news where "rc_site M st1 (calls_to_replace st') k news"
          "r \<in> set news" by blast
        then obtain CI n szt sz g kk name where
          "r \<in> set (rc_new CI n szt sz g kk ''klee_make_nondet'' name)"
          unfolding rc_site_def by blast
        from rc_new_call(2) [OF this r(3)] show ?thesis by (rule called_of_operands)
      next
        case False
        with n2 r(1) obtain k news where "ha_site M1 st2 (allocs_to_handle st') k news"
          "r \<in> set news" by force
        then obtain CI ci n callee mt g kk where
          "r \<in> set (ha_news CI ci n callee mt g kk ''klee_make_nondet'')"
          unfolding ha_site_def by blast
        from ha_news_call(2) [OF this r(3)] show ?thesis by (rule called_of_operands)
      qed
    qed
  qed
qed

theorem C9_single_declaration_witness:
  "map fname (funcs (fst (projr (runOnModule
      (source_with_line10 ''int x = __VERIFIER_nondet_int();'') foo_module)))) =
     [''__VERIFIER_nondet_int'', ''foo'', ''klee_make_nondet''] \<and>
   vms (fst (snd (projr (runOnModule
      (source_with_line10 ''int x = __VERIFIER_nondet_int();'') foo_module)))) =
     Some ''klee_make_nondet''"
proof -
  let ?e = "source_with_line10 ''int x = __VERIFIER_nondet_int();''"
  let ?r = "runOnModule ?e foo_module"
  have r: "\<not> isl ?r" by code_simp
  have wf: "wf_module foo_module" by code_simp
  have b: "snd (snd (projr ?r))" by code_simp
  have f: "map fname (funcs (fst (projr ?r))) =
     [''__VERIFIER_nondet_int'', ''foo'', ''klee_make_nondet'']" by code_simp
  from C9_single_declaration [OF run_result [OF r] wf] b f show ?thesis by simp
qed

text \<open>
  C3.  Let \<open>N\<close> be the number of NondetReplace sites of a run that returns, \<open>N < 2\<^sup>3\<^sup>2\<close>
  (the counter is a 32-bit \<^verbatim>\<open>unsigned\<close>).  The \<open>k\<close>-th rewrite (\<open>k = 0, \<dots>, N - 1\<close>, in the
  order of the work list) creates the registration call with identity
  \<open>fresh_id M + 4 * k + 2\<close>; that call is in the result, registers the slot cast by the
  instruction \<open>fresh_id M + 4 * k + 1\<close> under the \<open>k\<close>-th name constant the run added, and
  its identifier is \<open>k + 1\<close>.  The replacement phase creates no other call, and the counter
  ends at \<open>N\<close>.
\<close>

theorem C3_nondet_identifiers:
  assumes run: "runOnModule e M = Inr (M', st', b)" and wf: "wf_module M"
    and small: "length (calls_to_replace st') < 2 ^ 32"
  shows "(\<forall>k < length (calls_to_replace st'). \<exists>r nbytes.
            get_inst M' (fresh_id M + 4 * k + 2) = Some r \<and>
            operands r ! 2 = VGlobalCast (length (globals M) + k) i8ptr \<and>
            reg_info M' r = Some (VInst (fresh_id M + 4 * k + 1), nbytes,
                                  ginit (globals M' ! (length (globals M) + k)), k + 1)) \<and>
         (\<forall>r \<in> set (all_insts M'). iop r = Call \<longrightarrow> fresh_id M \<le> iid r \<longrightarrow>
            iid r < fresh_id M + 4 * length (calls_to_replace st') \<longrightarrow>
            (\<exists>k < length (calls_to_replace st'). iid r = fresh_id M + 4 * k + 2)) \<and>
         unat (call_identifier st') = length (calls_to_replace st')"
proof (rule runOnModule_sites [OF run wf])
  fix M1 st1 st2
  assume rl: "replaceCalls_loop M st1 (calls_to_replace st') = Inr (M1, st2)"
    and hl: "handleAllocs_loop M1 st2 (allocs_to_handle st') = Inr (M', st')"
    and c0: "call_identifier st1 = 0"
    and wf1: "wf_module M1" and wf': "wf_module M'"
    and f1: "fresh_id M1 = fresh_id M + 4 * length (calls_to_replace st')"
    and g1: "length (globals M1) = length (globals M) + length (calls_to_replace st')"
    and g2: "length (globals M') = length (globals M1) + length (allocs_to_handle st')"
    and inc: "set (all_insts M1) \<subseteq> set (all_insts M')"
    and bk: "\<forall>i' \<in> set (all_insts M'). iid i' < fresh_id M1 \<longrightarrow> i' \<in> set (all_insts M1)"
    and ex: "\<forall>k < length (calls_to_replace st'). \<exists>news.
        rc_site M st1 (calls_to_replace st') k news \<and> set news \<subseteq> set (all_insts M1)"
    and nw: "\<forall>i' \<in> set (all_insts M1). fresh_id M \<le> iid i' \<longrightarrow>
        (\<exists>k < length (calls_to_replace st'). \<exists>news.
           rc_site M st1 (calls_to_replace st') k news \<and> i' \<in> set news \<and>
           set news \<subseteq> set (all_insts M1))"
  let ?N = "length (calls_to_replace st')"
  have A: "\<exists>r nbytes.
            get_inst M' (fresh_id M + 4 * k + 2) = Some r \<and>
            operands r ! 2 = VGlobalCast (length (globals M) + k) i8ptr \<and>
            reg_info M' r = Some (VInst (fresh_id M + 4 * k + 1), nbytes,
                                  ginit (globals M' ! (length (globals M) + k)), k + 1)"
    if k: "k < ?N" for k
  proof -
    from ex k obtain news where s: "rc_site M st1 (calls_to_replace st') k news"
      and sub: "set news \<subseteq> set (all_insts M1)" by blast
    from sub inc have sub': "set news \<subseteq> set (all_insts M')" by blast
    from s sub' wf' obtain r where g: "get_inst M' (fresh_id M + 4 * k + 2) = Some r"
      and op: "iop r = Call"
      and ops: "operands r = [VInst (fresh_id M + 4 * k + 1), operands r ! 1,
                   VGlobalCast (length (globals M) + k) i8ptr,
                   VConstInt (IntTy 32) (unat (call_identifier st1 + of_nat k + 1)),
                   VFunc ''klee_make_nondet'']"
      by (rule rc_site_call)
    from k small have "k + 1 < 2 ^ 32" by simp
    from unat_next [OF this] c0 have id: "unat (call_identifier st1 + of_nat k + 1) = k + 1"
      by simp
    from k g1 g2 have gl: "length (globals M) + k < length (globals M')" by simp
    from reg_info_of_operands [OF op ops gl]
    have "reg_info M' r = Some (VInst (fresh_id M + 4 * k + 1), operands r ! 1,
                                  ginit (globals M' ! (length (globals M) + k)), k + 1)"
      unfolding id .
    moreover have "operands r ! 2 = VGlobalCast (length (globals M) + k) i8ptr"
      by (subst ops) simp
    ultimately show ?thesis using g by blast
  qed
  have B: "\<exists>k < ?N. iid r = fresh_id M + 4 * k + 2"
    if r: "r \<in> set (all_insts M')" "iop r = Call" "fresh_id M \<le> iid r"
      "iid r < fresh_id M + 4 * ?N" for r
  proof -
    from r(1,4) bk f1 have "r \<in> set (all_insts M1)" by simp
    with nw r(3) obtain k news where k: "k < ?N"
      and s: "rc_site M st1 (calls_to_replace st') k news" "r \<in> set news" by blast
    from s obtain CI szt sz g kk name where
      "r \<in> set (rc_new CI (fresh_id M + 4 * k) szt sz g kk ''klee_make_nondet'' name)"
      unfolding rc_site_def by blast
    from rc_new_call(1) [OF this r(2)] k show ?thesis by blast
  qed
  have C: "unat (call_identifier st') = ?N"
  proof -
    from replaceCalls_loop_state [OF rl wf] c0
    have "call_identifier st2 = of_nat ?N" by simp
    with handleAllocs_loop_state [OF hl wf1] have "call_identifier st' = of_nat ?N" by simp
    then have "unat (call_identifier st') = ?N mod 2 ^ 32" by (simp only: unat_of_nat) simp
    with small show ?thesis by simp
  qed
  from A B C show ?thesis by blast
qed

theorem C3_nondet_identifiers_witness:
  "\<exists>r nbytes.
     get_inst (fst (projr (runOnModule
       (source_with_line10 ''int x = __VERIFIER_nondet_int();'') foo2_module))) 10 = Some r \<and>
     reg_info (fst (projr (runOnModule
       (source_with_line10 ''int x = __VERIFIER_nondet_int();'') foo2_module))) r =
       Some (VInst 9, nbytes, ''foo:x:10'', 2)"
proof -
  let ?e = "source_with_line10 ''int x = __VERIFIER_nondet_int();''"
  let ?r = "runOnModule ?e foo2_module"
  have r: "\<not> isl ?r" by code_simp
  have wf: "wf_module foo2_module" by code_simp
  have st: "calls_to_replace (fst (snd (projr ?r))) = [(10, 2), (10, 1)]" by code_simp
  have fr: "fresh_id foo2_module = 4" by code_simp
  have g0: "globals foo2_module = []" by (simp add: foo2_module_def)
  have g1: "ginit (globals (fst (projr ?r)) ! 1) = ''foo:x:10''" by code_simp
  have small: "length (calls_to_replace (fst (snd (projr ?r)))) < 2 ^ 32" by (simp add: st)
  have k: "1 < length (calls_to_replace (fst (snd (projr ?r))))" by (simp add: st)
  from C3_nondet_identifiers [OF run_result [OF r] wf small, THEN conjunct1, rule_format, OF k]
  obtain i nbytes where
    "get_inst (fst (projr ?r)) (fresh_id foo2_module + 4 * 1 + 2) = Some i"
    "reg_info (fst (projr ?r)) i = Some (VInst (fresh_id foo2_module + 4 * 1 + 1), nbytes,
                ginit (globals (fst (projr ?r)) ! (length (globals foo2_module) + 1)), 1 + 1)"
    by blast
  then have "get_inst (fst (projr ?r)) 10 = Some i \<and>
    reg_info (fst (projr ?r)) i = Some (VInst 9, nbytes, ''foo:x:10'', 2)"
    unfolding fr g0 using g1 by simp
  then show ?thesis by blast
qed





text \<open>
  C2.  As stated the claim fails: the collector takes every declared function whose name
  starts with \<^verbatim>\<open>calloc\<close>, and the rewrite multiplies only when the name is exactly
  \<^verbatim>\<open>calloc\<close>.  For a call of \<^verbatim>\<open>calloc_n(n, 8)\<close> the registered size is the first
  argument alone, and no multiply instruction is inserted.
\<close>

theorem C2_registered_size_counterexample:
  "registered_sizes (no_source False)
     (bar_module ''calloc_n'' [VArg 0 (IntTy 64), VConstInt (IntTy 64) 8] None) =
     Some [VArg 0 (IntTy 64)] \<and>
   result_insts (no_source False)
     (bar_module ''calloc_n'' [VArg 0 (IntTy 64), VConstInt (IntTy 64) 8] None) =
     Some [(1, Call, [VArg 0 (IntTy 64), VConstInt (IntTy 64) 8, VFunc ''calloc_n'']),
           (3, PtrCast, [VInst 1]),
           (5, Call, [VInst 3, VArg 0 (IntTy 64), VGlobalCast 0 i8ptr, VConstInt (IntTy 32) 1,
                      VFunc ''klee_make_nondet'']),
           (2, Other 0, [VInst 1])]"
  by code_simp

text \<open>
  C2, amended.  For the \<open>k\<close>-th AllocAugment site \<open>c\<close> of a run that returns, let \<open>CI\<close> be
  the call as it stands in the result (the original call, where an argument that read a
  replaced NondetReplace call reads its load instead).  The registration call created for
  the site registers the cast of \<open>c\<close>.  When the callee of \<open>CI\<close> is named exactly
  \<^verbatim>\<open>calloc\<close>, its byte count is a multiply instruction of the result whose operands are
  the first two arguments of \<open>CI\<close>; for every other callee it is the first operand of
  \<open>CI\<close>.
\<close>

theorem C2_registered_size:
  assumes run: "runOnModule e M = Inr (M', st', b)" and wf: "wf_module M"
    and k: "k < length (allocs_to_handle st')" and site: "allocs_to_handle st' ! k = (l, c)"
  shows "\<exists>CI0 CI callee r cast nb name ident.
           CI0 \<in> set (all_insts M) \<and> redirected (snd ` set (calls_to_replace st')) CI0 CI \<and>
           CI \<in> set (all_insts M') \<and> iid CI = c \<and> getCalledFunction CI = Some callee \<and>
           get_inst M' (fresh_id M + 4 * length (calls_to_replace st') + 3 * k + 2) = Some r \<and>
           reg_info M' r = Some (VInst (iid cast), nb, name, ident) \<and>
           cast \<in> set (all_insts M') \<and> iop cast = PtrCast \<and> operands cast = [VInst c] \<and>
           (if callee = ''calloc''
            then \<exists>mul \<in> set (all_insts M'). iop mul = Mul \<and>
                   operands mul = [operands CI ! 0, operands CI ! 1] \<and> nb = VInst (iid mul)
            else nb = operands CI ! 0)"
proof (rule runOnModule_sites [OF run wf])
  fix M1 st1 st2
  assume wf': "wf_module M'"
    and b2: "\<forall>c \<in> snd ` set (allocs_to_handle st'). c < fresh_id M"
    and f1: "fresh_id M1 = fresh_id M + 4 * length (calls_to_replace st')"
    and g2: "length (globals M') = length (globals M1) + length (allocs_to_handle st')"
    and inc: "set (all_insts M1) \<subseteq> set (all_insts M')"
    and ex2: "\<forall>k < length (allocs_to_handle st'). \<exists>news.
        ha_site M1 st2 (allocs_to_handle st') k news \<and> set news \<subseteq> set (all_insts M')"
    and old: "\<forall>i' \<in> set (all_insts M1). iid i' < fresh_id M \<longrightarrow>
       (\<exists>i \<in> set (all_insts M). iid i \<notin> snd ` set (calls_to_replace st') \<and>
          redirected (snd ` set (calls_to_replace st')) i i')"
  from site have c: "snd (allocs_to_handle st' ! k) = c" by simp
  from ex2 k obtain news where s: "ha_site M1 st2 (allocs_to_handle st') k news"
    and sub: "set news \<subseteq> set (all_insts M')" by blast
  from s sub wf' obtain r cast CI callee where
    g: "get_inst M' (fresh_id M1 + 3 * k + 2) = Some r" and op: "iop r = Call"
    and ops: "operands r = [VInst (fresh_id M1 + 3 * k), operands r ! 1,
                   VGlobalCast (length (globals M1) + k) i8ptr,
                   VConstInt (IntTy 32) (unat (alloc_call_identifier st2 + of_nat k + 1)),
                   VFunc ''klee_make_nondet'']"
    and cast: "cast \<in> set (all_insts M')" "iid cast = fresh_id M1 + 3 * k" "iop cast = PtrCast"
      "operands cast = [VInst (snd (allocs_to_handle st' ! k))]"
    and CI: "CI \<in> set (all_insts M1)" "iid CI = snd (allocs_to_handle st' ! k)"
      "getCalledFunction CI = Some callee"
    and mul: "callee = ''calloc'' \<longrightarrow>
       (\<exists>mul \<in> set (all_insts M'). iid mul = fresh_id M1 + 3 * k + 1 \<and> iop mul = Mul \<and>
          operands mul = [operands CI ! 0, operands CI ! 1] \<and> operands r ! 1 = VInst (iid mul))"
    and nomul: "callee \<noteq> ''calloc'' \<longrightarrow> operands r ! 1 = operands CI ! 0"
    by (rule ha_site_call)
  from k c have "c \<in> snd ` set (allocs_to_handle st')" by (metis nth_mem image_eqI)
  with b2 have "c < fresh_id M" by blast
  with old CI(1,2) c obtain CI0 where CI0: "CI0 \<in> set (all_insts M)"
    "redirected (snd ` set (calls_to_replace st')) CI0 CI" by auto
  from k g2 have gl: "length (globals M1) + k < length (globals M')" by simp
  from reg_info_of_operands [OF op ops gl]
  have R: "reg_info M' r = Some (VInst (iid cast), operands r ! 1,
             ginit (globals M' ! (length (globals M1) + k)),
             unat (alloc_call_identifier st2 + of_nat k + 1))"
    unfolding cast(2) .
  from g have G: "get_inst M' (fresh_id M + 4 * length (calls_to_replace st') + 3 * k + 2) = Some r"
    unfolding f1 .
  from CI(1) inc have CI': "CI \<in> set (all_insts M')" by blast
  have S: "if callee = ''calloc''
            then \<exists>mul \<in> set (all_insts M'). iop mul = Mul \<and>
                   operands mul = [operands CI ! 0, operands CI ! 1] \<and>
                   operands r ! 1 = VInst (iid mul)
            else operands r ! 1 = operands CI ! 0"
    using mul nomul by (cases "callee = ''calloc''") auto
  show ?thesis
    by (rule exI [of _ CI0], rule exI [of _ CI], rule exI [of _ callee], rule exI [of _ r],
        rule exI [of _ cast], rule exI [of _ "operands r ! 1"],
        rule exI [of _ "ginit (globals M' ! (length (globals M1) + k))"],
        rule exI [of _ "unat (alloc_call_identifier st2 + of_nat k + 1)"])
       (intro conjI CI0 CI' CI(2) [unfolded c] CI(3) G R cast(1,3) cast(4) [unfolded c] S)
qed

theorem C2_registered_size_witness:
  "\<exists>r mul mem name.
     r \<in> set (all_insts (fst (projr (runOnModule (no_source False)
       (bar_module ''calloc'' [VArg 0 (IntTy 64), VConstInt (IntTy 64) 8] None))))) \<and>
     mul \<in> set (all_insts (fst (projr (runOnModule (no_source False)
       (bar_module ''calloc'' [VArg 0 (IntTy 64), VConstInt (IntTy 64) 8] None))))) \<and>
     iop mul = Mul \<and> operands mul = [VArg 0 (IntTy 64), VConstInt (IntTy 64) 8] \<and>
     reg_info (fst (projr (runOnModule (no_source False)
       (bar_module ''calloc'' [VArg 0 (IntTy 64), VConstInt (IntTy 64) 8] None)))) r =
       Some (mem, VInst (iid mul), name, 1)"
proof -
  let ?M = "bar_module ''calloc'' [VArg 0 (IntTy 64), VConstInt (IntTy 64) 8] None"
  let ?r = "runOnModule (no_source False) ?M"
  let ?M' = "fst (projr ?r)"
  have r: "\<not> isl ?r" by code_simp
  have wf: "wf_module ?M" by code_simp
  have wf': "wf_module ?M'" by code_simp
  have a: "allocs_to_handle (fst (snd (projr ?r))) = [(0, 1)]" by code_simp
  have k: "0 < length (allocs_to_handle (fst (snd (projr ?r))))" by (simp add: a)
  have site: "allocs_to_handle (fst (snd (projr ?r))) ! 0 = (0, 1)" by (simp add: a)
  have gi: "get_inst ?M' 1 =
    Some (alloc_call 1 ''calloc'' [VArg 0 (IntTy 64), VConstInt (IntTy 64) 8] None)"
    by code_simp
  have g5: "map_option (\<lambda>i. operands i ! 3) (get_inst ?M' 5) = Some (VConstInt (IntTy 32) 1)"
    by code_simp
  have fr: "fresh_id ?M + 4 * length (calls_to_replace (fst (snd (projr ?r)))) + 3 * 0 + 2 = 5"
    by code_simp
  note T = C2_registered_size [OF run_result [OF r] wf k site]
  obtain CI callee i and cast :: inst and nb name ident where
    CI: "getCalledFunction CI = Some callee" "CI \<in> set (all_insts ?M')" "iid CI = 1"
    and g: "get_inst ?M' (fresh_id ?M + 4 * length (calls_to_replace (fst (snd (projr ?r)))) + 3 * 0 + 2) = Some i"
    and R: "reg_info ?M' i = Some (VInst (iid cast), nb, name, ident)"
    and S: "if callee = ''calloc''
            then \<exists>mul \<in> set (all_insts ?M'). iop mul = Mul \<and>
                   operands mul = [operands CI ! 0, operands CI ! 1] \<and> nb = VInst (iid mul)
            else nb = operands CI ! 0"
  proof -
    from T show thesis by (elim exE conjE) (rule that)
  qed
  from CI(2,3) wf' have "get_inst ?M' 1 = Some CI" by (simp add: get_inst_Some_iff)
  with gi have CIe: "CI = alloc_call 1 ''calloc'' [VArg 0 (IntTy 64), VConstInt (IntTy 64) 8] None"
    by simp
  with CI(1) have cal: "callee = ''calloc''" by (simp add: alloc_call_def getCalledFunction_def)
  from S cal obtain mul where mul: "mul \<in> set (all_insts ?M')" "iop mul = Mul"
    "operands mul = [operands CI ! 0, operands CI ! 1]" "nb = VInst (iid mul)" by auto
  from mul(3) have mo: "operands mul = [VArg 0 (IntTy 64), VConstInt (IntTy 64) 8]"
    unfolding CIe by (simp add: alloc_call_def)
  from g have g': "get_inst ?M' 5 = Some i" unfolding fr .
  with g5 have o3: "operands i ! 3 = VConstInt (IntTy 32) 1" by simp
  from R o3 have "ident = 1"
    by (auto simp: reg_info_def split: if_splits val.splits)
  with R mul(4) have R': "reg_info ?M' i = Some (VInst (iid cast), VInst (iid mul), name, 1)"
    by simp
  from get_inst_SomeD [OF g'] have "i \<in> set (all_insts ?M')" by simp
  with mul(1,2) mo R' show ?thesis by blast
qed

text \<open>
  C1.  For the \<open>k\<close>-th NondetReplace site \<open>c\<close> of a run that returns: no instruction of the
  result has the identity \<open>c\<close>; the result holds a stack slot and a load of it, both
  created by the run, the slot of the type of the original call \<open>CI\<close> and the load of that
  type too; and every instruction of the input that is not itself a replaced site is in
  the result, with the same opcode and as many operands, and wherever it read the result
  of \<open>c\<close> it reads that load.  The instructions of the input that are replaced sites are
  removed, with their uses, and no instruction of the result reads the result of \<open>c\<close>.
\<close>

theorem C1_call_replaced_by_load:
  assumes run: "runOnModule e M = Inr (M', st', b)" and wf: "wf_module M"
    and k: "k < length (calls_to_replace st')" and site: "calls_to_replace st' ! k = (l, c)"
  shows "c \<notin> iid ` set (all_insts M') \<and>
         (\<forall>u' \<in> set (all_insts M'). VInst c \<notin> set (operands u')) \<and>
         (\<exists>CI al ld.
            CI \<in> set (all_insts M) \<and> iid CI = c \<and>
            al \<in> set (all_insts M') \<and> iid al \<notin> iid ` set (all_insts M) \<and>
            iop al = Alloca (ity CI) \<and>
            ld \<in> set (all_insts M') \<and> iid ld \<notin> iid ` set (all_insts M) \<and>
            iop ld = Load \<and> operands ld = [VInst (iid al)] \<and> ity ld = ity CI \<and>
            (\<forall>u \<in> set (all_insts M). iid u \<notin> snd ` set (calls_to_replace st') \<longrightarrow>
               (\<exists>u' \<in> set (all_insts M'). iid u' = iid u \<and> iop u' = iop u \<and>
                  length (operands u') = length (operands u) \<and>
                  (\<forall>j < length (operands u). operands u ! j = VInst c \<longrightarrow>
                     operands u' ! j = VInst (iid ld)))))"
proof (rule runOnModule_sites [OF run wf])
  fix M1 st1 st2
  assume rl: "replaceCalls_loop M st1 (calls_to_replace st') = Inr (M1, st2)"
    and hl: "handleAllocs_loop M1 st2 (allocs_to_handle st') = Inr (M', st')"
    and wf1: "wf_module M1" and ok: "cache_ok M st1" and ok2: "cache_ok M1 st2"
    and wf': "wf_module M'"
    and b1: "\<forall>c \<in> snd ` set (calls_to_replace st'). c < fresh_id M"
    and f1: "fresh_id M1 = fresh_id M + 4 * length (calls_to_replace st')"
    and inc: "set (all_insts M1) \<subseteq> set (all_insts M')"
    and bk: "\<forall>i' \<in> set (all_insts M'). iid i' < fresh_id M1 \<longrightarrow> i' \<in> set (all_insts M1)"
    and ex: "\<forall>k < length (calls_to_replace st'). \<exists>news.
        rc_site M st1 (calls_to_replace st') k news \<and> set news \<subseteq> set (all_insts M1)"
    and old: "\<forall>i' \<in> set (all_insts M1). iid i' < fresh_id M \<longrightarrow>
       (\<exists>i \<in> set (all_insts M). iid i \<notin> snd ` set (calls_to_replace st') \<and>
          redirected (snd ` set (calls_to_replace st')) i i')"
    and fw: "\<forall>i \<in> set (all_insts M). iid i \<notin> snd ` set (calls_to_replace st') \<longrightarrow>
       (\<exists>i' \<in> set (all_insts M1). redirected (snd ` set (calls_to_replace st')) i i')"
    and us: "\<forall>k < length (calls_to_replace st'). \<forall>u \<in> set (all_insts M). \<forall>u' \<in> set (all_insts M1).
       iid u' = iid u \<longrightarrow>
       (\<forall>j < length (operands u). operands u ! j = VInst (snd (calls_to_replace st' ! k)) \<longrightarrow>
          operands u' ! j = VInst (fresh_id M + 4 * k + 3))"
  let ?S = "snd ` set (calls_to_replace st')"
  from site have c: "snd (calls_to_replace st' ! k) = c" by simp
  from k c have cS: "c \<in> ?S" by (metis nth_mem image_eqI)
  with b1 have clt: "c < fresh_id M" by blast
  have gone: "c \<notin> iid ` set (all_insts M')"
  proof
    assume "c \<in> iid ` set (all_insts M')"
    then obtain i' where i': "i' \<in> set (all_insts M')" "iid i' = c" by auto
    with clt f1 bk have "i' \<in> set (all_insts M1)" by simp
    with old i'(2) clt obtain i where "iid i \<notin> ?S" "redirected ?S i i'" by auto
    with redirected_fields(1) [of ?S i i'] i'(2) cS show False by simp
  qed
  have dead: "\<forall>u' \<in> set (all_insts M'). VInst c \<notin> set (operands u')"
  proof -
    from replaceCalls_loop_unread [OF rl wf ok b1] cS have u1: "unread c M1" by blast
    from clt f1 have c1: "c < fresh_id M1" by simp
    from gone inc have n1: "c \<notin> iid ` set (all_insts M1)" by blast
    from handleAllocs_loop_unread [OF hl wf1 ok2 c1 n1 u1] show ?thesis
      by (simp add: unread_def)
  qed
  from ex k obtain news where s: "rc_site M st1 (calls_to_replace st') k news"
    and sub: "set news \<subseteq> set (all_insts M1)" by blast
  from sub inc have sub': "set news \<subseteq> set (all_insts M')" by blast
  from s sub' wf' obtain CI al ld where
    CI: "CI \<in> set (all_insts M)" "iid CI = snd (calls_to_replace st' ! k)"
    and al: "al \<in> set (all_insts M')" "iid al = fresh_id M + 4 * k" "iop al = Alloca (ity CI)"
    and ld: "ld \<in> set (all_insts M')" "iid ld = fresh_id M + 4 * k + 3" "iop ld = Load"
      "operands ld = [VInst (iid al)]" "ity ld = ity CI"
    by (rule rc_site_slot)
  have new: "j \<notin> iid ` set (all_insts M)" if "fresh_id M \<le> j" for j
    using that fresh_id_gt [of _ M] by (auto simp: not_le [symmetric] simp del: not_le)
  have an: "iid al \<notin> iid ` set (all_insts M)" unfolding al(2) by (rule new) simp
  have ln: "iid ld \<notin> iid ` set (all_insts M)" unfolding ld(2) by (rule new) simp
  have U: "\<exists>u' \<in> set (all_insts M'). iid u' = iid u \<and> iop u' = iop u \<and>
                  length (operands u') = length (operands u) \<and>
                  (\<forall>j < length (operands u). operands u ! j = VInst c \<longrightarrow>
                     operands u' ! j = VInst (iid ld))"
    if u: "u \<in> set (all_insts M)" "iid u \<notin> ?S" for u
  proof -
    from fw u obtain u' where u': "u' \<in> set (all_insts M1)" "redirected ?S u u'" by blast
    note rf = redirected_fields [OF u'(2)]
    from us k u(1) u'(1) rf(1) c
    have "\<forall>j < length (operands u). operands u ! j = VInst c \<longrightarrow>
            operands u' ! j = VInst (fresh_id M + 4 * k + 3)" by simp
    with u'(1) inc rf(1,2,6) ld(2) show ?thesis by (intro bexI [of _ u']) auto
  qed
  show ?thesis
  proof (intro conjI gone dead)
    show "\<exists>CI al ld.
            CI \<in> set (all_insts M) \<and> iid CI = c \<and>
            al \<in> set (all_insts M') \<and> iid al \<notin> iid ` set (all_insts M) \<and>
            iop al = Alloca (ity CI) \<and>
            ld \<in> set (all_insts M') \<and> iid ld \<notin> iid ` set (all_insts M) \<and>
            iop ld = Load \<and> operands ld = [VInst (iid al)] \<and> ity ld = ity CI \<and>
            (\<forall>u \<in> set (all_insts M). iid u \<notin> ?S \<longrightarrow>
               (\<exists>u' \<in> set (all_insts M'). iid u' = iid u \<and> iop u' = iop u \<and>
                  length (operands u') = length (operands u) \<and>
                  (\<forall>j < length (operands u). operands u ! j = VInst c \<longrightarrow>
                     operands u' ! j = VInst (iid ld))))"
      by (rule exI [of _ CI], rule exI [of _ al], rule exI [of _ ld])
         (intro conjI CI(1) CI(2) [unfolded c] al(1) an al(3) ld(1) ln ld(3,4,5) ballI impI U)
  qed
qed

theorem C1_call_replaced_by_load_witness:
  "1 \<notin> iid ` set (all_insts (fst (projr (runOnModule
      (source_with_line10 ''int x = __VERIFIER_nondet_int();'') foo_module)))) \<and>
   (\<exists>ld u'.
      ld \<in> set (all_insts (fst (projr (runOnModule
        (source_with_line10 ''int x = __VERIFIER_nondet_int();'') foo_module)))) \<and>
      iop ld = Load \<and> ity ld = IntTy 32 \<and>
      u' \<in> set (all_insts (fst (projr (runOnModule
        (source_with_line10 ''int x = __VERIFIER_nondet_int();'') foo_module)))) \<and>
      iid u' = 2 \<and> operands u' ! 0 = VInst (iid ld))"
proof -
  let ?e = "source_with_line10 ''int x = __VERIFIER_nondet_int();''"
  let ?r = "runOnModule ?e foo_module"
  let ?M' = "fst (projr ?r)"
  have r: "\<not> isl ?r" by code_simp
  have wf: "wf_module foo_module" by code_simp
  have st: "calls_to_replace (fst (snd (projr ?r))) = [(10, 1)]" by code_simp
  have k: "0 < length (calls_to_replace (fst (snd (projr ?r))))" by (simp add: st)
  have site: "calls_to_replace (fst (snd (projr ?r))) ! 0 = (10, 1)" by (simp add: st)
  have ai: "all_insts foo_module = [nondet_call 1 (Some 10), use_of 2 [VInst 1]]"
    by (simp add: all_insts_def foo_module_def nondet_decl_def)
  note T = C1_call_replaced_by_load [OF run_result [OF r] wf k site]
  from T have gone: "1 \<notin> iid ` set (all_insts ?M')" by (rule conjunct1)
  obtain CI ld where CI: "CI \<in> set (all_insts foo_module)" "iid CI = 1"
    and ld: "ld \<in> set (all_insts ?M')" "iop ld = Load" "ity ld = ity CI"
    and U: "\<forall>u \<in> set (all_insts foo_module).
              iid u \<notin> snd ` set (calls_to_replace (fst (snd (projr ?r)))) \<longrightarrow>
               (\<exists>u' \<in> set (all_insts ?M'). iid u' = iid u \<and> iop u' = iop u \<and>
                  length (operands u') = length (operands u) \<and>
                  (\<forall>j < length (operands u). operands u ! j = VInst 1 \<longrightarrow>
                     operands u' ! j = VInst (iid ld)))"
  proof -
    from T [THEN conjunct2, THEN conjunct2] show thesis by (elim exE conjE) (rule that)
  qed
  from CI have "ity CI = IntTy 32" unfolding ai by (auto simp: nondet_call_def use_of_def)
  with ld(3) have ty: "ity ld = IntTy 32" by simp
  have "use_of 2 [VInst 1] \<in> set (all_insts foo_module)" unfolding ai by simp
  moreover have "iid (use_of 2 [VInst 1]) \<notin> snd ` set (calls_to_replace (fst (snd (projr ?r))))"
    unfolding st by (simp add: use_of_def)
  ultimately obtain u' where u': "u' \<in> set (all_insts ?M')" "iid u' = iid (use_of 2 [VInst 1])"
    "\<forall>j < length (operands (use_of 2 [VInst 1])). operands (use_of 2 [VInst 1]) ! j = VInst 1 \<longrightarrow>
                     operands u' ! j = VInst (iid ld)"
    using U by blast
  from u'(2,3) have "iid u' = 2" "operands u' ! 0 = VInst (iid ld)" by (simp_all add: use_of_def)
  with gone ld(1,2) ty u'(1) show ?thesis by blast
qed




end
